theory Spec2Isabelle
  imports Complex_Main "HOL-Library.Word" "HOL-Library.Log_Nat"
begin

section \<open>Bytes, slices and the struct module\<close>

text \<open>
  A Python \<^verbatim>\<open>bytes\<close> object is a list of 8-bit words. The literal
  \<^verbatim>\<open>b'RIFF'\<close> is \<open>b ''RIFF''\<close>.
\<close>

type_synonym byte = "8 word"

definition b :: "string \<Rightarrow> byte list" where
  "b s = map (\<lambda>c. of_nat (of_char c)) s"

text \<open>
  \<^verbatim>\<open>data[lo:hi]\<close> for \<open>0 \<le> lo \<le> hi\<close>: a slice never raises, it is cut at the
  end of the buffer.
\<close>

definition slice :: "nat \<Rightarrow> nat \<Rightarrow> 'a list \<Rightarrow> 'a list" where
  "slice lo hi xs = take (hi - lo) (drop lo xs)"

text \<open>
  The exceptions of the two scripts: \<^verbatim>\<open>ValueError(msg)\<close> raised by the header
  parser, \<^verbatim>\<open>struct.error\<close> raised by \<^verbatim>\<open>struct.pack\<close> on a value outside the
  field and by \<^verbatim>\<open>struct.unpack\<close> on a buffer of the wrong length,
  \<^verbatim>\<open>ZeroDivisionError\<close>, \<^verbatim>\<open>OverflowError\<close> of the conversions between integers
  and floats, and the errors of \<^verbatim>\<open>open\<close>: \<^verbatim>\<open>FileNotFoundError\<close>,
  \<^verbatim>\<open>IsADirectoryError\<close> and \<^verbatim>\<open>PermissionError\<close>.
\<close>

datatype error = ValueError string | StructError | ZeroDivisionError | FileNotFoundError
  | OverflowError | IsADirectoryError | PermissionError

text \<open>\<^verbatim>\<open>struct.unpack('<H', bs)[0]\<close> and \<^verbatim>\<open>struct.unpack('<I', bs)[0]\<close>.\<close>

fun unpack_H :: "byte list \<Rightarrow> error + nat" where
  "unpack_H [b0, b1] = Inr (unat b0 + 256 * unat b1)"
| "unpack_H _ = Inl StructError"

fun unpack_I :: "byte list \<Rightarrow> error + nat" where
  "unpack_I [b0, b1, b2, b3] =
     Inr (unat b0 + 256 * unat b1 + 65536 * unat b2 + 16777216 * unat b3)"
| "unpack_I _ = Inl StructError"

text \<open>
  The little-endian bytes of an unsigned value, and \<^verbatim>\<open>struct.pack\<close> with the
  formats \<^verbatim>\<open>'<H'\<close>, \<^verbatim>\<open>'<I'\<close> and \<^verbatim>\<open>'<h'\<close>: a value outside the field's range
  raises \<^verbatim>\<open>struct.error\<close>, it is neither clamped nor wrapped.
\<close>

definition le16 :: "nat \<Rightarrow> byte list" where
  "le16 v = [of_nat (v mod 256), of_nat (v div 256 mod 256)]"

definition le32 :: "nat \<Rightarrow> byte list" where
  "le32 v = [of_nat (v mod 256), of_nat (v div 256 mod 256),
             of_nat (v div 65536 mod 256), of_nat (v div 16777216 mod 256)]"




text \<open>
  The files the scripts read and write: a map from path to content. Whether a path
  can be opened for writing depends on directories and permissions, which the map
  does not hold: an \<open>opener\<close> gives, for every path, what
  \<^verbatim>\<open>open(path, 'wb')\<close> does there, \<open>None\<close> when it creates or truncates the
  file and \<open>Some e\<close> when it raises \<open>e\<close>.
\<close>

type_synonym filesystem = "string \<Rightarrow> byte list option"


section \<open>wav2array.py: the header parser\<close>

text \<open>The dictionary \<^verbatim>\<open>read_wav_header\<close> returns, one field per key.\<close>

record wav_header =
  hdr_format :: nat
  hdr_channels :: nat
  hdr_sample_rate :: nat
  hdr_bits_per_sample :: nat
  hdr_chunk_size :: nat

text \<open>
  The body of the \<^verbatim>\<open>if chunk_id == b'fmt '\<close> branch: four unpacks in the
  source's order, each of which raises \<^verbatim>\<open>struct.error\<close> when its slice is cut
  short by the end of the buffer.
\<close>

definition parse_fmt :: "byte list \<Rightarrow> nat \<Rightarrow> nat \<Rightarrow> error + wav_header" where
  "parse_fmt data pos chunk_size =
     (case unpack_H (slice (pos + 8) (pos + 10) data) of
        Inl e \<Rightarrow> Inl e
      | Inr audio_format \<Rightarrow>
     (case unpack_H (slice (pos + 10) (pos + 12) data) of
        Inl e \<Rightarrow> Inl e
      | Inr num_channels \<Rightarrow>
     (case unpack_I (slice (pos + 12) (pos + 16) data) of
        Inl e \<Rightarrow> Inl e
      | Inr sample_rate \<Rightarrow>
     (case unpack_H (slice (pos + 22) (pos + 24) data) of
        Inl e \<Rightarrow> Inl e
      | Inr bits_per_sample \<Rightarrow>
          Inr \<lparr>hdr_format = audio_format, hdr_channels = num_channels,
               hdr_sample_rate = sample_rate, hdr_bits_per_sample = bits_per_sample,
               hdr_chunk_size = chunk_size\<rparr>))))"

text \<open>
  The \<^verbatim>\<open>while pos < len(data) - 8\<close> loop. The comparison is on Python integers:
  \<^verbatim>\<open>len(data) - 8\<close> is negative for a buffer shorter than 8 bytes.
\<close>

function find_fmt :: "byte list \<Rightarrow> nat \<Rightarrow> error + wav_header" where
  "find_fmt data pos =
     (if int pos < int (length data) - 8 then
        (case unpack_I (slice (pos + 4) (pos + 8) data) of
           Inl e \<Rightarrow> Inl e
         | Inr chunk_size \<Rightarrow>
             if slice pos (pos + 4) data = b ''fmt '' then parse_fmt data pos chunk_size
             else find_fmt data
                    (pos + 8 + chunk_size + (if chunk_size mod 2 = 1 then 1 else 0)))
      else Inl (ValueError ''No fmt chunk found in WAV file''))"
  by pat_completeness auto
termination
  by (relation "measure (\<lambda>(data, pos). length data - pos)") auto

definition read_wav_header :: "byte list \<Rightarrow> error + wav_header" where
  "read_wav_header data =
     (if slice 0 4 data \<noteq> b ''RIFF'' then
        Inl (ValueError ''Not a valid WAV file (missing RIFF header)'')
      else if slice 8 12 data \<noteq> b ''WAVE'' then
        Inl (ValueError ''Not a valid WAV file (missing WAVE marker)'')
      else find_fmt data 12)"

text \<open>The two error kinds of the parser, as the messages the source raises them with.\<close>

definition invalid_container :: "error \<Rightarrow> bool" where
  "invalid_container e =
     (e = ValueError ''Not a valid WAV file (missing RIFF header)'' \<or>
      e = ValueError ''Not a valid WAV file (missing WAVE marker)'')"

definition missing_format_chunk :: error where
  "missing_format_chunk = ValueError ''No fmt chunk found in WAV file''"

text \<open>
  The positions the scan visits, read off the buffer: the little-endian value at an
  offset, the offset after the chunk at \<open>pos\<close> (its 8-byte header, the size it
  declares, and a pad byte when that size is odd), and the offset of the \<open>n\<close>-th chunk
  counted from the first one at 12.
\<close>

definition u16_at :: "byte list \<Rightarrow> nat \<Rightarrow> nat" where
  "u16_at data p = unat (data ! p) + 256 * unat (data ! (p + 1))"

definition u32_at :: "byte list \<Rightarrow> nat \<Rightarrow> nat" where
  "u32_at data p = unat (data ! p) + 256 * unat (data ! (p + 1))
                   + 65536 * unat (data ! (p + 2)) + 16777216 * unat (data ! (p + 3))"

definition next_chunk :: "byte list \<Rightarrow> nat \<Rightarrow> nat" where
  "next_chunk data pos =
     pos + 8 + u32_at data (pos + 4) + (if u32_at data (pos + 4) mod 2 = 1 then 1 else 0)"

definition chunk_offset :: "byte list \<Rightarrow> nat \<Rightarrow> nat" where
  "chunk_offset data n = (next_chunk data ^^ n) 12"

text \<open>
  A test buffer: a \<^verbatim>\<open>LIST\<close> chunk of odd size with its pad byte, then \<^verbatim>\<open>fmt \<close>,
  then an empty \<^verbatim>\<open>data\<close> chunk.
\<close>

definition list_then_fmt :: "byte list" where
  "list_then_fmt =
     b ''RIFF'' @ le32 52 @ b ''WAVE''
     @ b ''LIST'' @ le32 3 @ [1, 2, 3] @ [0]
     @ b ''fmt '' @ le32 16 @ le16 1 @ le16 1 @ le32 16000 @ le32 32000 @ le16 2 @ le16 16
     @ b ''data'' @ le32 0"

section \<open>wav2array.py: the array encoder\<close>

text \<open>
  \<^verbatim>\<open>f"{b:02X}"\<close> for a byte: two upper-case hexadecimal digits. \<^verbatim>\<open>str(n)\<close> for a
  non-negative integer: its decimal digits. \<^verbatim>\<open>sep.join(parts)\<close>.
  \<^verbatim>\<open>os.path.basename\<close> as \<^verbatim>\<open>posixpath\<close> has it: what follows the last slash.
\<close>

definition hex_digit :: "nat \<Rightarrow> char" where
  "hex_digit n = ''0123456789ABCDEF'' ! n"

definition format_02X :: "byte \<Rightarrow> string" where
  "format_02X x = [hex_digit (unat x div 16), hex_digit (unat x mod 16)]"

definition dec_digit :: "nat \<Rightarrow> char" where
  "dec_digit n = ''0123456789'' ! n"

function str_nat :: "nat \<Rightarrow> string" where
  "str_nat n =
     (if n < 10 then [dec_digit n] else str_nat (n div 10) @ [dec_digit (n mod 10)])"
  by pat_completeness auto
termination
  by (relation "measure id") auto

fun join :: "string \<Rightarrow> string list \<Rightarrow> string" where
  "join sep [] = []"
| "join sep [x] = x"
| "join sep (x # y # ys) = x @ sep @ join sep (y # ys)"

definition basename :: "string \<Rightarrow> string" where
  "basename p = rev (takeWhile (\<lambda>c. c \<noteq> CHR ''/'') (rev p))"

text \<open>
  The loop \<^verbatim>\<open>for i in range(0, len(data), 16)\<close>, with the text accumulated in
  \<^verbatim>\<open>output\<close>.
\<close>

function emit_rows :: "byte list \<Rightarrow> nat \<Rightarrow> string \<Rightarrow> string" where
  "emit_rows data i output =
     (if i < length data then
        (let chunk = slice i (i + 16) data;
             hex_bytes = join '', '' (map (\<lambda>x. ''0x'' @ format_02X x) chunk);
             output = output @ ''    '' @ hex_bytes;
             output = (if i + 16 < length data then output @ '','' else output);
             output = output @ ''\<newline>''
         in emit_rows data (i + 16) output)
      else output)"
  by pat_completeness auto
termination
  by (relation "measure (\<lambda>(data, i, output). length data - i)") auto

definition wav_to_c_array :: "filesystem \<Rightarrow> string \<Rightarrow> string \<Rightarrow> error + string" where
  "wav_to_c_array fs wav_file var_name =
     (case fs wav_file of
        None \<Rightarrow> Inl FileNotFoundError
      | Some data \<Rightarrow>
          (case read_wav_header data of
             Inl e \<Rightarrow> Inl e
           | Inr header_info \<Rightarrow>
               (let output = ''// '' @ basename wav_file @ ''\<newline>'';
                    output = output @ ''// Format: '' @ str_nat (hdr_channels header_info)
                               @ '' channel(s), '';
                    output = output @ str_nat (hdr_sample_rate header_info) @ '' Hz, '';
                    output = output @ str_nat (hdr_bits_per_sample header_info)
                               @ ''-bit\<newline>'';
                    output = output @ ''// Size: '' @ str_nat (length data)
                               @ '' bytes\<newline>\<newline>'';
                    output = output @ ''const uint8_t PROGMEM '' @ var_name
                               @ ''[] = {\<newline>'';
                    output = emit_rows data 0 output;
                    output = output @ ''};\<newline>'';
                    output = output @ ''const uint32_t '' @ var_name @ ''_len = sizeof(''
                               @ var_name @ '');\<newline>''
                in Inr output)))"

text \<open>
  The array body as section 4.4 of the specification words it: the bytes cut into rows
  of 16, each byte a literal \<^verbatim>\<open>0xHH\<close>, the literals of a row joined by a comma
  and a space behind a uniform indent, a comma after every row but the last, a
  newline after every row. \<open>hex_val\<close> reads an upper-case hexadecimal digit back.
\<close>

function rows_of_16 :: "'a list \<Rightarrow> 'a list list" where
  "rows_of_16 xs = (if xs = [] then [] else take 16 xs # rows_of_16 (drop 16 xs))"
  by pat_completeness auto
termination
  by (relation "measure length") auto

definition hex_literal :: "byte \<Rightarrow> string" where
  "hex_literal x = [CHR ''0'', CHR ''x'', hex_digit (unat x div 16), hex_digit (unat x mod 16)]"

definition hex_val :: "char \<Rightarrow> nat" where
  "hex_val c = length (takeWhile (\<lambda>d. d \<noteq> c) ''0123456789ABCDEF'')"

fun render_rows :: "byte list list \<Rightarrow> string" where
  "render_rows [] = []"
| "render_rows [r] = ''    '' @ join '', '' (map hex_literal r) @ ''\<newline>''"
| "render_rows (r # r' # rs) =
     ''    '' @ join '', '' (map hex_literal r) @ '','' @ ''\<newline>'' @ render_rows (r' # rs)"

text \<open>A test buffer of 17 bytes with the RIFF/WAVE prefix.\<close>

definition riff_17 :: "byte list" where
  "riff_17 = b ''RIFF'' @ le32 9 @ b ''WAVE'' @ [0, 1, 2, 3, 4]"

section \<open>generate_sounds.py: the WAV writer\<close>

text \<open>
  The \<^verbatim>\<open>f.write(...)\<close> calls inside \<^verbatim>\<open>with open(filename, 'wb') as f\<close>, in order:
  each appends its bytes to the file; the first \<^verbatim>\<open>struct.pack\<close> that raises ends
  the block, and the file keeps what was written before it.
\<close>

fun write_fields :: "(error + byte list) list \<Rightarrow> byte list \<Rightarrow> byte list \<times> (error + unit)" where
  "write_fields [] f = (f, Inr ())"
| "write_fields (Inl e # rest) f = (f, Inl e)"
| "write_fields (Inr bs # rest) f = write_fields rest (f @ bs)"



text \<open>
  The layout of section 3 of the specification for \<open>n\<close> samples at rate \<open>r\<close>: the
  44 bytes before the sample data, and the two bytes of one sample.
\<close>

definition wav_header_bytes :: "nat \<Rightarrow> nat \<Rightarrow> byte list" where
  "wav_header_bytes n r =
     b ''RIFF'' @ le32 (36 + 2 * n) @ b ''WAVE''
     @ b ''fmt '' @ le32 16 @ le16 1 @ le16 1 @ le32 r @ le32 (2 * r) @ le16 2 @ le16 16
     @ b ''data'' @ le32 (2 * n)"


section \<open>generate_sounds.py: Python floats\<close>

text \<open>
  A Python float is an IEEE-754 double: a rational number on the double grid, an
  infinity or a NaN (the sign of a zero is not kept: nothing here depends on it).
  \<open>round_double\<close> is round-to-nearest, ties to even, to 53 significant bits, with
  the exponent unbounded above and the spacing \<open>2 powi - 1074\<close> of the subnormal
  numbers below: \<open>ilog2 x\<close> is the exponent \<open>e\<close> with \<open>2 powi e \<le> x < 2 powi (e + 1)\<close>,
  \<open>quantum x\<close> the exponent of the grid spacing at \<open>x\<close>. \<open>max_double\<close> is the
  largest finite double; a rounded result beyond it overflows.
\<close>

datatype pyfloat = Finite rat | PosInf | NegInf | NaN

definition round_half_even :: "rat \<Rightarrow> int" where
  "round_half_even x =
     (let f = \<lfloor>x\<rfloor>; r = x - of_int f
      in if r < 1 / 2 then f else if 1 / 2 < r then f + 1 else if even f then f else f + 1)"

definition ilog2 :: "rat \<Rightarrow> int" where
  "ilog2 x = (if 1 \<le> x then bitlen \<lfloor>x\<rfloor> - 1 else - bitlen (\<lceil>1 / x\<rceil> - 1))"

definition quantum :: "rat \<Rightarrow> int" where
  "quantum x = max (ilog2 \<bar>x\<bar> - 52) (- 1074)"

definition round_double :: "rat \<Rightarrow> rat" where
  "round_double x =
     (let q = quantum x in of_int (round_half_even (x / 2 powi q)) * 2 powi q)"

definition max_double :: rat where
  "max_double = (2 ^ 53 - 1) * 2 ^ 971"

text \<open>
  The operations the synthesizer uses. \<open>to_float x\<close> is the double an arithmetic
  operation with exact result \<open>x\<close> returns. \<open>float_of_int\<close> is the conversion Python
  applies to the integer operand of a mixed \<^verbatim>\<open>int * float\<close>; \<open>int_truediv\<close> is
  \<^verbatim>\<open>a / c\<close> on two integers (correctly rounded); both raise
  \<^verbatim>\<open>OverflowError\<close> instead of returning an infinity. \<open>float_mul\<close> is \<^verbatim>\<open>x * y\<close>
  on floats, \<open>py_int\<close> is \<^verbatim>\<open>int(x)\<close>, truncation towards zero.
\<close>

definition to_float :: "rat \<Rightarrow> pyfloat" where
  "to_float x =
     (let r = round_double x
      in if max_double < r then PosInf else if r < - max_double then NegInf else Finite r)"

definition float_of_int :: "int \<Rightarrow> error + pyfloat" where
  "float_of_int n =
     (let r = round_double (of_int n)
      in if max_double < \<bar>r\<bar> then Inl OverflowError else Inr (Finite r))"

definition int_truediv :: "int \<Rightarrow> int \<Rightarrow> error + pyfloat" where
  "int_truediv a c =
     (if c = 0 then Inl ZeroDivisionError
      else (let r = round_double (of_int a / of_int c)
            in if max_double < \<bar>r\<bar> then Inl OverflowError else Inr (Finite r)))"

fun float_mul :: "pyfloat \<Rightarrow> pyfloat \<Rightarrow> pyfloat" where
  "float_mul (Finite x) (Finite y) = to_float (x * y)"
| "float_mul NaN y = NaN"
| "float_mul x NaN = NaN"
| "float_mul (Finite x) PosInf = (if x = 0 then NaN else if 0 < x then PosInf else NegInf)"
| "float_mul (Finite x) NegInf = (if x = 0 then NaN else if 0 < x then NegInf else PosInf)"
| "float_mul PosInf (Finite y) = (if y = 0 then NaN else if 0 < y then PosInf else NegInf)"
| "float_mul NegInf (Finite y) = (if y = 0 then NaN else if 0 < y then NegInf else PosInf)"
| "float_mul PosInf PosInf = PosInf"
| "float_mul PosInf NegInf = NegInf"
| "float_mul NegInf PosInf = NegInf"
| "float_mul NegInf NegInf = PosInf"

text \<open>\<^verbatim>\<open>math.pi\<close>: the double nearest to \<open>\<pi>\<close>, \<^verbatim>\<open>0x400921FB54442D18\<close>.\<close>

definition math_pi :: pyfloat where
  "math_pi = Finite (884279719003555 / 281474976710656)"

text \<open>
  \<^verbatim>\<open>math.sin\<close> is the C library's sine and not part of the repository: its values
  on finite doubles are a parameter \<open>msin\<close> of the model. It raises on an infinity
  and passes a NaN through.
\<close>

definition math_sin :: "(rat \<Rightarrow> rat) \<Rightarrow> pyfloat \<Rightarrow> error + pyfloat" where
  "math_sin msin x =
     (case x of
        Finite r \<Rightarrow> Inr (Finite (msin r))
      | NaN \<Rightarrow> Inr NaN
      | _ \<Rightarrow> Inl (ValueError ''math domain error''))"

definition py_int :: "pyfloat \<Rightarrow> error + int" where
  "py_int x =
     (case x of
        Finite r \<Rightarrow> Inr (if 0 \<le> r then \<lfloor>r\<rfloor> else \<lceil>r\<rceil>)
      | NaN \<Rightarrow> Inl (ValueError ''cannot convert float NaN to integer'')
      | _ \<Rightarrow> Inl OverflowError)"

text \<open>
  \<^verbatim>\<open>x / y\<close> on floats: Python raises \<^verbatim>\<open>ZeroDivisionError\<close> on a zero divisor
  and leaves every other case to the IEEE-754 division.
\<close>

fun float_div :: "pyfloat \<Rightarrow> pyfloat \<Rightarrow> pyfloat" where
  "float_div (Finite x) (Finite y) = to_float (x / y)"
| "float_div NaN y = NaN"
| "float_div x NaN = NaN"
| "float_div (Finite x) PosInf = Finite 0"
| "float_div (Finite x) NegInf = Finite 0"
| "float_div PosInf (Finite y) = (if 0 < y then PosInf else NegInf)"
| "float_div NegInf (Finite y) = (if 0 < y then NegInf else PosInf)"
| "float_div PosInf PosInf = NaN"
| "float_div PosInf NegInf = NaN"
| "float_div NegInf PosInf = NaN"
| "float_div NegInf NegInf = NaN"

definition float_truediv :: "pyfloat \<Rightarrow> pyfloat \<Rightarrow> error + pyfloat" where
  "float_truediv x y = (if y = Finite 0 then Inl ZeroDivisionError else Inr (float_div x y))"

section \<open>generate_sounds.py: Python numbers\<close>

text \<open>
  The parameters of \<^verbatim>\<open>generate_tone\<close> and \<^verbatim>\<open>generate_silence\<close> are untyped: a
  caller may pass integers or floats, and every operator dispatches on the kinds of
  its operands. \<open>as_float\<close> is the conversion of an operand of a mixed operation.
  \<open>num_mul\<close> is \<^verbatim>\<open>x * y\<close>: exact on two integers, the float product otherwise.
  \<open>num_truediv\<close> is \<^verbatim>\<open>x / y\<close>: always a float. \<open>num_sin\<close> is \<^verbatim>\<open>math.sin(x)\<close> and
  \<open>num_int\<close> is \<^verbatim>\<open>int(x)\<close>.
\<close>

datatype pynum = PyInt int | PyFloat pyfloat

fun as_float :: "pynum \<Rightarrow> error + pyfloat" where
  "as_float (PyInt n) = float_of_int n"
| "as_float (PyFloat x) = Inr x"

fun num_mul :: "pynum \<Rightarrow> pynum \<Rightarrow> error + pynum" where
  "num_mul (PyInt a) (PyInt c) = Inr (PyInt (a * c))"
| "num_mul x y =
     (case as_float x of
        Inl e \<Rightarrow> Inl e
      | Inr u \<Rightarrow>
     (case as_float y of
        Inl e \<Rightarrow> Inl e
      | Inr v \<Rightarrow> Inr (PyFloat (float_mul u v))))"

fun num_truediv :: "pynum \<Rightarrow> pynum \<Rightarrow> error + pynum" where
  "num_truediv (PyInt a) (PyInt c) =
     (case int_truediv a c of Inl e \<Rightarrow> Inl e | Inr q \<Rightarrow> Inr (PyFloat q))"
| "num_truediv x y =
     (case as_float x of
        Inl e \<Rightarrow> Inl e
      | Inr u \<Rightarrow>
     (case as_float y of
        Inl e \<Rightarrow> Inl e
      | Inr v \<Rightarrow>
     (case float_truediv u v of Inl e \<Rightarrow> Inl e | Inr q \<Rightarrow> Inr (PyFloat q))))"

definition num_sin :: "(rat \<Rightarrow> rat) \<Rightarrow> pynum \<Rightarrow> error + pynum" where
  "num_sin msin x =
     (case as_float x of
        Inl e \<Rightarrow> Inl e
      | Inr u \<Rightarrow> (case math_sin msin u of Inl e \<Rightarrow> Inl e | Inr s \<Rightarrow> Inr (PyFloat s)))"

fun num_int :: "pynum \<Rightarrow> error + int" where
  "num_int (PyInt n) = Inr n"
| "num_int (PyFloat x) = py_int x"

text \<open>The mathematical value of a number, when it has one.\<close>

fun num_value :: "pynum \<Rightarrow> rat option" where
  "num_value (PyInt n) = Some (of_int n)"
| "num_value (PyFloat (Finite x)) = Some x"
| "num_value (PyFloat x) = None"

section \<open>generate_sounds.py: the tone synthesizer\<close>

text \<open>The default \<^verbatim>\<open>amplitude=0.3\<close>: the double nearest to 3/10.\<close>

definition default_amplitude :: pyfloat where
  "default_amplitude = Finite (round_double (3 / 10))"

text \<open>
  A \<^verbatim>\<open>for\<close> loop that appends one value per index and stops at the first
  exception.
\<close>

fun for_each :: "('a \<Rightarrow> error + 'b) \<Rightarrow> 'a list \<Rightarrow> error + 'b list" where
  "for_each f [] = Inr []"
| "for_each f (i # rest) =
     (case f i of
        Inl e \<Rightarrow> Inl e
      | Inr s \<Rightarrow> (case for_each f rest of Inl e \<Rightarrow> Inl e | Inr samples \<Rightarrow> Inr (s # samples)))"

text \<open>
  The body of the loop of \<^verbatim>\<open>generate_tone\<close> for the index \<open>i\<close>:
  \<^verbatim>\<open>t = i / sample_rate\<close>,
  \<^verbatim>\<open>value = amplitude * math.sin(2 * math.pi * frequency * t)\<close>,
  \<^verbatim>\<open>sample = int(value * 32767)\<close>, one operation at a time in the order Python
  evaluates them.
\<close>

definition tone_sample :: "(rat \<Rightarrow> rat) \<Rightarrow> pynum \<Rightarrow> pynum \<Rightarrow> pynum \<Rightarrow> int \<Rightarrow> error + int" where
  "tone_sample msin frequency sample_rate amplitude i =
     (case num_truediv (PyInt i) sample_rate of
        Inl e \<Rightarrow> Inl e
      | Inr t \<Rightarrow>
     (case num_mul (PyInt 2) (PyFloat math_pi) of
        Inl e \<Rightarrow> Inl e
      | Inr two_pi \<Rightarrow>
     (case num_mul two_pi frequency of
        Inl e \<Rightarrow> Inl e
      | Inr w \<Rightarrow>
     (case num_mul w t of
        Inl e \<Rightarrow> Inl e
      | Inr phase \<Rightarrow>
     (case num_sin msin phase of
        Inl e \<Rightarrow> Inl e
      | Inr s \<Rightarrow>
     (case num_mul amplitude s of
        Inl e \<Rightarrow> Inl e
      | Inr v \<Rightarrow>
     (case num_mul v (PyInt 32767) of
        Inl e \<Rightarrow> Inl e
      | Inr y \<Rightarrow> num_int y)))))))"

text \<open>
  \<^verbatim>\<open>generate_tone\<close>: \<^verbatim>\<open>num_samples = int(sample_rate * duration_ms / 1000)\<close>,
  then one sample per index of \<^verbatim>\<open>range(num_samples)\<close>, which is empty for a
  negative count.
\<close>

definition generate_tone ::
  "(rat \<Rightarrow> rat) \<Rightarrow> pynum \<Rightarrow> pynum \<Rightarrow> pynum \<Rightarrow> pynum \<Rightarrow> error + int list" where
  "generate_tone msin frequency duration_ms sample_rate amplitude =
     (case num_mul sample_rate duration_ms of
        Inl e \<Rightarrow> Inl e
      | Inr p \<Rightarrow>
     (case num_truediv p (PyInt 1000) of
        Inl e \<Rightarrow> Inl e
      | Inr q \<Rightarrow>
     (case num_int q of
        Inl e \<Rightarrow> Inl e
      | Inr num_samples \<Rightarrow>
          for_each (tone_sample msin frequency sample_rate amplitude)
            (map int [0..<nat num_samples]))))"

text \<open>
  \<^verbatim>\<open>generate_silence\<close>: the same count, and \<^verbatim>\<open>[0] * num_samples\<close>, empty for a
  negative count.
\<close>

definition generate_silence :: "pynum \<Rightarrow> pynum \<Rightarrow> error + int list" where
  "generate_silence duration_ms sample_rate =
     (case num_mul sample_rate duration_ms of
        Inl e \<Rightarrow> Inl e
      | Inr p \<Rightarrow>
     (case num_truediv p (PyInt 1000) of
        Inl e \<Rightarrow> Inl e
      | Inr q \<Rightarrow>
     (case num_int q of
        Inl e \<Rightarrow> Inl e
      | Inr num_samples \<Rightarrow> Inr (replicate (nat num_samples) 0))))"

text \<open>A stand-in for the sine in tests: a cubic clipped to \<open>[-1, 1]\<close>.\<close>

definition test_sin :: "rat \<Rightarrow> rat" where
  "test_sin x = max (- 1) (min 1 (x - x ^ 3 / 6))"

section \<open>Bytes: basic facts\<close>

declare find_fmt.simps [simp del] emit_rows.simps [simp del] str_nat.simps [simp del]

lemma length_b: "length (b s) = length s"
  by (simp add: b_def)

lemma length_le32: "length (le32 v) = 4"
  by (simp add: le32_def)

lemma length_le16: "length (le16 v) = 2"
  by (simp add: le16_def)

lemma le32_sum:
  fixes v :: nat
  assumes "v < 4294967296"
  shows "v mod 256 + 256 * (v div 256 mod 256) + 65536 * (v div 65536 mod 256)
           + 16777216 * (v div 16777216 mod 256) = v"
proof -
  define q1 where "q1 = v div 256"
  define q2 where "q2 = q1 div 256"
  define q3 where "q3 = q2 div 256"
  have e2: "v div 65536 = q2" by (simp add: q1_def q2_def div_mult2_eq)
  have e3: "v div 16777216 = q3" by (simp add: q1_def q2_def q3_def div_mult2_eq)
  have small: "q3 mod 256 = q3" using assms e3 by simp
  have a: "v = v mod 256 + 256 * q1" unfolding q1_def by simp
  have b: "q1 = q1 mod 256 + 256 * q2" unfolding q2_def by simp
  have c: "q2 = q2 mod 256 + 256 * q3" unfolding q3_def by simp
  have "v mod 256 + 256 * (q1 mod 256) + 65536 * (q2 mod 256) + 16777216 * q3 = v"
    using a b c by linarith
  then show ?thesis using small e2 e3 by (simp add: q1_def)
qed

lemma unpack_I_le32: "v < 4294967296 \<Longrightarrow> unpack_I (le32 v) = Inr v"
  using le32_sum [of v] by (simp add: le32_def unat_of_nat)

lemma unpack_H_le16: "v < 65536 \<Longrightarrow> unpack_H (le16 v) = Inr v"
  by (simp add: le16_def unat_of_nat)

lemma data_id_not_fmt: "b ''data'' \<noteq> b ''fmt ''"
  by (simp add: b_def)

section \<open>The header parser: errors\<close>

lemma find_fmt_exhausted:
  "length data \<le> pos + 8 \<Longrightarrow> find_fmt data pos = Inl (ValueError ''No fmt chunk found in WAV file'')"
  by (simp add: find_fmt.simps)

lemma read_wav_header_data_only:
  assumes "length sz = 4" "length payload < 4294967296" "length pad = length payload mod 2"
  shows "read_wav_header
           (b ''RIFF'' @ sz @ b ''WAVE'' @ b ''data'' @ le32 (length payload) @ payload @ pad)
         = Inl (ValueError ''No fmt chunk found in WAV file'')"
proof -
  let ?data = "b ''RIFF'' @ sz @ b ''WAVE'' @ b ''data'' @ le32 (length payload) @ payload @ pad"
  have len: "length ?data = 20 + length payload + length pad"
    using assms by (simp add: length_b length_le32)
  have s0: "slice 0 4 ?data = b ''RIFF''"
    by (simp add: slice_def length_b)
  have s8: "slice 8 12 ?data = b ''WAVE''"
    using assms by (simp add: slice_def length_b)
  have s12: "slice 12 16 ?data = b ''data''"
    using assms by (simp add: slice_def length_b)
  have s16: "slice 16 20 ?data = le32 (length payload)"
    using assms by (simp add: slice_def length_b length_le32)
  have "find_fmt ?data 12 = Inl (ValueError ''No fmt chunk found in WAV file'')"
  proof (cases "int 12 < int (length ?data) - 8")
    case False
    then show ?thesis by (subst find_fmt.simps) simp
  next
    case True
    have "find_fmt ?data 12 =
          find_fmt ?data (12 + 8 + length payload + (if length payload mod 2 = 1 then 1 else 0))"
      using True s12 s16 assms(2) data_id_not_fmt
      by (subst find_fmt.simps) (simp add: unpack_I_le32)
    also have "\<dots> = Inl (ValueError ''No fmt chunk found in WAV file'')"
    proof (rule find_fmt_exhausted)
      show "length ?data
              \<le> 12 + 8 + length payload + (if length payload mod 2 = 1 then 1 else 0) + 8"
        unfolding len using assms(3) by simp
    qed
    finally show ?thesis .
  qed
  then show ?thesis using s0 s8 by (simp add: read_wav_header_def)
qed

text \<open>
  C4. \<^verbatim>\<open>read_wav_header\<close> raises the invalid-container error on every buffer whose
  first four bytes are not \<^verbatim>\<open>RIFF\<close> or whose bytes 8 to 12 are not \<^verbatim>\<open>WAVE\<close>, and
  the missing-format-chunk error on every RIFF/WAVE buffer that holds a single
  \<^verbatim>\<open>data\<close> chunk (any size field \<open>sz\<close>, the payload of the declared length, a
  pad byte after a payload of odd length) and no \<^verbatim>\<open>fmt \<close> chunk.
\<close>

theorem read_wav_header_rejects:
  "(slice 0 4 data \<noteq> b ''RIFF'' \<or> slice 8 12 data \<noteq> b ''WAVE''
      \<longrightarrow> (\<exists>e. read_wav_header data = Inl e \<and> invalid_container e))
   \<and> (length sz = 4 \<and> length payload < 4294967296 \<and> length pad = length payload mod 2
      \<longrightarrow> read_wav_header
            (b ''RIFF'' @ sz @ b ''WAVE'' @ b ''data'' @ le32 (length payload) @ payload @ pad)
          = Inl missing_format_chunk)"
proof (intro conjI impI)
  assume "slice 0 4 data \<noteq> b ''RIFF'' \<or> slice 8 12 data \<noteq> b ''WAVE''"
  then show "\<exists>e. read_wav_header data = Inl e \<and> invalid_container e"
    by (auto simp add: read_wav_header_def invalid_container_def)
next
  assume "length sz = 4 \<and> length payload < 4294967296 \<and> length pad = length payload mod 2"
  then show "read_wav_header
            (b ''RIFF'' @ sz @ b ''WAVE'' @ b ''data'' @ le32 (length payload) @ payload @ pad)
          = Inl missing_format_chunk"
    by (simp add: read_wav_header_data_only missing_format_chunk_def)
qed

theorem read_wav_header_rejects_witness:
  "(\<exists>e. read_wav_header (b ''RIFX'' @ [36, 0, 0, 0] @ b ''WAVE'') = Inl e \<and> invalid_container e)
   \<and> read_wav_header
         (b ''RIFF'' @ [16, 0, 0, 0] @ b ''WAVE'' @ b ''data'' @ le32 (length [1, 2, 3 :: byte])
            @ [1, 2, 3] @ [0])
       = Inl missing_format_chunk"
proof -
  have h1: "slice 0 4 (b ''RIFX'' @ [36, 0, 0, 0] @ b ''WAVE'') \<noteq> b ''RIFF''"
    by (simp add: slice_def b_def)
  show ?thesis
    using h1 read_wav_header_rejects
      [where data = "b ''RIFX'' @ [36, 0, 0, 0] @ b ''WAVE''" and sz = "[16, 0, 0, 0]"
         and payload = "[1, 2, 3]" and pad = "[0]"]
    by simp
qed

section \<open>The WAV writer\<close>

lemma length_wav_header_bytes: "length (wav_header_bytes n r) = 44"
  by (simp add: wav_header_bytes_def length_b length_le32 length_le16)

lemma write_fields_Inr: "write_fields (map Inr bss @ rest) f = write_fields rest (f @ concat bss)"
  by (induction bss arbitrary: f) auto









lemma read_wav_header_written:
  assumes "r < 4294967296"
  shows "read_wav_header (wav_header_bytes n r @ rest)
     = Inr \<lparr>hdr_format = 1, hdr_channels = 1, hdr_sample_rate = r, hdr_bits_per_sample = 16, hdr_chunk_size = 16\<rparr>"
proof -
  let ?d = "wav_header_bytes n r @ rest"
  have s0: "slice 0 4 ?d = b ''RIFF''" "slice 8 12 ?d = b ''WAVE''" "slice 12 16 ?d = b ''fmt ''"
     "slice 16 20 ?d = le32 16" "slice 20 22 ?d = le16 1" "slice 22 24 ?d = le16 1"
     "slice 24 28 ?d = le32 r" "slice 34 36 ?d = le16 16"
    by (simp_all add: slice_def wav_header_bytes_def length_b length_le32 length_le16)
  have len: "int 12 < int (length ?d) - 8" by (simp add: length_wav_header_bytes)
  have "find_fmt ?d 12 = parse_fmt ?d 12 16"
    using len s0 by (subst find_fmt.simps) (simp add: unpack_I_le32)
  also have "\<dots> = Inr \<lparr>hdr_format = 1, hdr_channels = 1, hdr_sample_rate = r, hdr_bits_per_sample = 16, hdr_chunk_size = 16\<rparr>"
    using s0 assms by (simp add: parse_fmt_def unpack_I_le32 unpack_H_le16)
  finally show ?thesis using s0 by (simp add: read_wav_header_def)
qed














section \<open>The header parser: the chunk scan\<close>

lemma slice2: "p + 2 \<le> length xs \<Longrightarrow> slice p (p + 2) xs = [xs ! p, xs ! (p + 1)]"
  by (auto simp add: slice_def list_eq_iff_nth_eq nth_Cons split: nat.splits)

lemma slice4:
  "p + 4 \<le> length xs \<Longrightarrow> slice p (p + 4) xs = [xs ! p, xs ! (p + 1), xs ! (p + 2), xs ! (p + 3)]"
  by (auto simp add: slice_def list_eq_iff_nth_eq nth_Cons numeral_eq_Suc split: nat.splits)

lemma unpack_H_slice:
  "hi = p + 2 \<Longrightarrow> hi \<le> length data \<Longrightarrow> unpack_H (slice p hi data) = Inr (u16_at data p)"
  using slice2 [of p data] by (simp add: u16_at_def)

lemma unpack_I_slice:
  "hi = p + 4 \<Longrightarrow> hi \<le> length data \<Longrightarrow> unpack_I (slice p hi data) = Inr (u32_at data p)"
  using slice4 [of p data] by (simp add: u32_at_def)

lemma find_fmt_step:
  assumes "pos + 8 < length data"
  shows "find_fmt data pos =
          (if slice pos (pos + 4) data = b ''fmt '' then parse_fmt data pos (u32_at data (pos + 4))
           else find_fmt data (next_chunk data pos))"
proof -
  have "unpack_I (slice (pos + 4) (pos + 8) data) = Inr (u32_at data (pos + 4))"
    using assms by (intro unpack_I_slice) simp_all
  then show ?thesis
    using assms by (subst find_fmt.simps) (simp add: next_chunk_def)
qed

lemma parse_fmt_complete:
  assumes "pos + 24 \<le> length data"
  shows "parse_fmt data pos sz =
     Inr \<lparr>hdr_format = u16_at data (pos + 8), hdr_channels = u16_at data (pos + 10),
          hdr_sample_rate = u32_at data (pos + 12), hdr_bits_per_sample = u16_at data (pos + 22),
          hdr_chunk_size = sz\<rparr>"
proof -
  have "unpack_H (slice (pos + 8) (pos + 10) data) = Inr (u16_at data (pos + 8))"
    using assms by (intro unpack_H_slice) simp_all
  moreover have "unpack_H (slice (pos + 10) (pos + 12) data) = Inr (u16_at data (pos + 10))"
    using assms by (intro unpack_H_slice) simp_all
  moreover have "unpack_I (slice (pos + 12) (pos + 16) data) = Inr (u32_at data (pos + 12))"
    using assms by (intro unpack_I_slice) simp_all
  moreover have "unpack_H (slice (pos + 22) (pos + 24) data) = Inr (u16_at data (pos + 22))"
    using assms by (intro unpack_H_slice) simp_all
  ultimately show ?thesis by (simp add: parse_fmt_def)
qed

lemma find_fmt_skip:
  assumes "\<forall>j<n. (next_chunk data ^^ j) pos + 8 < length data
             \<and> slice ((next_chunk data ^^ j) pos) ((next_chunk data ^^ j) pos + 4) data \<noteq> b ''fmt ''"
  shows "find_fmt data pos = find_fmt data ((next_chunk data ^^ n) pos)"
  using assms
proof (induction n)
  case 0
  then show ?case by simp
next
  case (Suc n)
  then have "find_fmt data pos = find_fmt data ((next_chunk data ^^ n) pos)" by simp
  also have "\<dots> = find_fmt data (next_chunk data ((next_chunk data ^^ n) pos))"
    using Suc.prems by (subst find_fmt_step) auto
  finally show ?case by simp
qed

lemma parse_fmt_not_missing: "parse_fmt data pos sz \<noteq> Inl (ValueError msg)"
  by (auto simp add: parse_fmt_def split: sum.splits list.splits elim!: unpack_H.elims unpack_I.elims)


lemma next_chunk_gt: "pos + 8 \<le> next_chunk data pos"
  by (simp add: next_chunk_def)

lemma find_fmt_missing_trace:
  assumes "find_fmt data pos = Inl (ValueError msg)"
  shows "\<exists>n. length data \<le> (next_chunk data ^^ n) pos + 8
           \<and> (\<forall>j<n. (next_chunk data ^^ j) pos + 8 < length data
                 \<and> slice ((next_chunk data ^^ j) pos) ((next_chunk data ^^ j) pos + 4) data
                     \<noteq> b ''fmt '')"
  using assms
proof (induction "length data - pos" arbitrary: pos rule: less_induct)
  case less
  show ?case
  proof (cases "pos + 8 < length data")
    case False
    then have "length data \<le> (next_chunk data ^^ 0) pos + 8" by simp
    then show ?thesis by blast
  next
    case True
    let ?q = "next_chunk data pos"
    have notfmt: "slice pos (pos + 4) data \<noteq> b ''fmt ''"
      using less.prems True parse_fmt_not_missing by (auto simp add: find_fmt_step)
    then have "find_fmt data ?q = Inl (ValueError msg)"
      using less.prems True by (simp add: find_fmt_step)
    moreover have "length data - ?q < length data - pos"
      using True next_chunk_gt [of pos data] by linarith
    ultimately obtain n where n: "length data \<le> (next_chunk data ^^ n) ?q + 8"
      "\<forall>j<n. (next_chunk data ^^ j) ?q + 8 < length data
                 \<and> slice ((next_chunk data ^^ j) ?q) ((next_chunk data ^^ j) ?q + 4) data
                     \<noteq> b ''fmt ''"
      using less.hyps by blast
    have "length data \<le> (next_chunk data ^^ Suc n) pos + 8"
      using n(1) by (simp add: funpow_swap1)
    moreover have "\<forall>j<Suc n. (next_chunk data ^^ j) pos + 8 < length data
                 \<and> slice ((next_chunk data ^^ j) pos) ((next_chunk data ^^ j) pos + 4) data
                     \<noteq> b ''fmt ''"
    proof (intro allI impI)
      fix j assume "j < Suc n"
      show "(next_chunk data ^^ j) pos + 8 < length data
                 \<and> slice ((next_chunk data ^^ j) pos) ((next_chunk data ^^ j) pos + 4) data
                     \<noteq> b ''fmt ''"
      proof (cases j)
        case 0
        then show ?thesis using True notfmt by simp
      next
        case (Suc k)
        then have "k < n" using \<open>j < Suc n\<close> by simp
        then show ?thesis using n(2) Suc by (simp add: funpow_swap1)
      qed
    qed
    ultimately show ?thesis by blast
  qed
qed

lemma chunk_offset_mono: "j \<le> n \<Longrightarrow> chunk_offset data j \<le> chunk_offset data n"
proof (induction n)
  case 0
  then show ?case by simp
next
  case (Suc n)
  have step: "chunk_offset data n \<le> chunk_offset data (Suc n)"
    using next_chunk_gt [of "chunk_offset data n" data] by (simp add: chunk_offset_def)
  show ?case
  proof (cases "j = Suc n")
    case True
    then show ?thesis by simp
  next
    case False
    then have "j \<le> n" using Suc.prems by simp
    then show ?thesis using Suc.IH step by linarith
  qed
qed

lemma chunk_offset_step: "j < n \<Longrightarrow> chunk_offset data j + 8 \<le> chunk_offset data n"
proof -
  assume "j < n"
  then have "chunk_offset data (Suc j) \<le> chunk_offset data n"
    by (intro chunk_offset_mono) simp
  moreover have "chunk_offset data j + 8 \<le> chunk_offset data (Suc j)"
    using next_chunk_gt [of "chunk_offset data j" data] by (simp add: chunk_offset_def)
  ultimately show ?thesis by linarith
qed

lemma chunk_offset_ge: "12 \<le> chunk_offset data n"
  using chunk_offset_mono [of 0 n data] by (simp add: chunk_offset_def)

lemma read_wav_header_found:
  assumes "slice 0 4 data = b ''RIFF''" "slice 8 12 data = b ''WAVE''"
    and "\<forall>j<n. chunk_offset data j + 8 < length data
           \<and> slice (chunk_offset data j) (chunk_offset data j + 4) data \<noteq> b ''fmt ''"
    and "slice (chunk_offset data n) (chunk_offset data n + 4) data = b ''fmt ''"
    and "chunk_offset data n + 24 \<le> length data"
  shows "read_wav_header data =
     Inr \<lparr>hdr_format = u16_at data (chunk_offset data n + 8),
          hdr_channels = u16_at data (chunk_offset data n + 10),
          hdr_sample_rate = u32_at data (chunk_offset data n + 12),
          hdr_bits_per_sample = u16_at data (chunk_offset data n + 22),
          hdr_chunk_size = u32_at data (chunk_offset data n + 4)\<rparr>"
proof -
  let ?p = "chunk_offset data n"
  have "read_wav_header data = find_fmt data 12"
    using assms(1,2) by (simp add: read_wav_header_def)
  also have "\<dots> = find_fmt data ?p"
    unfolding chunk_offset_def
    using assms(3) by (intro find_fmt_skip) (simp add: chunk_offset_def)
  also have "\<dots> = parse_fmt data ?p (u32_at data (?p + 4))"
    using assms(4,5) by (subst find_fmt_step) simp_all
  finally show ?thesis using assms(5) by (simp add: parse_fmt_complete)
qed


lemma u16_at_take:
  "q + 2 \<le> m \<Longrightarrow> m \<le> length data \<Longrightarrow> u16_at (take m data @ rest) q = u16_at data q"
  by (simp add: u16_at_def nth_append)

lemma u32_at_take:
  "q + 4 \<le> m \<Longrightarrow> m \<le> length data \<Longrightarrow> u32_at (take m data @ rest) q = u32_at data q"
  by (simp add: u32_at_def nth_append)

lemma next_chunk_take:
  "q + 8 \<le> m \<Longrightarrow> m \<le> length data \<Longrightarrow> next_chunk (take m data @ rest) q = next_chunk data q"
  by (simp add: next_chunk_def u32_at_take)

lemma slice4_take:
  assumes "q + 4 \<le> m" "m \<le> length data"
  shows "slice q (q + 4) (take m data @ rest) = slice q (q + 4) data"
proof -
  have "slice q (q + 4) (take m data @ rest)
        = [(take m data @ rest) ! q, (take m data @ rest) ! (q + 1),
           (take m data @ rest) ! (q + 2), (take m data @ rest) ! (q + 3)]"
    using assms by (intro slice4) simp
  also have "\<dots> = [data ! q, data ! (q + 1), data ! (q + 2), data ! (q + 3)]"
    using assms by (simp add: nth_append)
  also have "\<dots> = slice q (q + 4) data"
    using assms by (intro slice4 [symmetric]) simp
  finally show ?thesis .
qed

lemma chunk_offset_take:
  assumes "m \<le> length data" "chunk_offset data n \<le> m" "j \<le> n"
  shows "chunk_offset (take m data @ rest) j = chunk_offset data j"
  using assms(3)
proof (induction j)
  case 0
  then show ?case by (simp add: chunk_offset_def)
next
  case (Suc j)
  then have ih: "chunk_offset (take m data @ rest) j = chunk_offset data j" by simp
  have "chunk_offset data j + 8 \<le> m"
    using chunk_offset_step [of j n data] Suc.prems assms(2) by simp
  then have "next_chunk (take m data @ rest) (chunk_offset data j)
             = next_chunk data (chunk_offset data j)"
    using assms(1) by (rule next_chunk_take)
  then show ?case using ih by (simp add: chunk_offset_def)
qed

lemma read_wav_header_prefix_only:
  assumes "slice 0 4 data = b ''RIFF''" "slice 8 12 data = b ''WAVE''"
    and "\<forall>j<n. chunk_offset data j + 8 < length data
           \<and> slice (chunk_offset data j) (chunk_offset data j + 4) data \<noteq> b ''fmt ''"
    and "slice (chunk_offset data n) (chunk_offset data n + 4) data = b ''fmt ''"
    and "chunk_offset data n + 24 \<le> length data"
  shows "read_wav_header (take (chunk_offset data n + 24) data @ rest) = read_wav_header data"
proof -
  let ?p = "chunk_offset data n"
  let ?m = "?p + 24"
  let ?d = "take ?m data @ rest"
  have m: "?m \<le> length data" by (rule assms(5))
  have p12: "12 \<le> ?p" by (rule chunk_offset_ge)
  have off: "chunk_offset ?d j = chunk_offset data j" if "j \<le> n" for j
    using m _ that by (rule chunk_offset_take) simp
  have len: "?m \<le> length ?d" using m by simp
  have a1: "slice 0 4 ?d = b ''RIFF''"
    using slice4_take [of 0 ?m data rest] m p12 assms(1) by simp
  have a2: "slice 8 12 ?d = b ''WAVE''"
    using slice4_take [of 8 ?m data rest] m p12 assms(2) by simp
  have a3: "\<forall>j<n. chunk_offset ?d j + 8 < length ?d
           \<and> slice (chunk_offset ?d j) (chunk_offset ?d j + 4) ?d \<noteq> b ''fmt ''"
  proof (intro allI impI)
    fix j assume j: "j < n"
    have le: "chunk_offset data j + 8 \<le> ?p" using j by (rule chunk_offset_step)
    have "slice (chunk_offset data j) (chunk_offset data j + 4) ?d
          = slice (chunk_offset data j) (chunk_offset data j + 4) data"
      using le m by (intro slice4_take) simp_all
    then show "chunk_offset ?d j + 8 < length ?d
           \<and> slice (chunk_offset ?d j) (chunk_offset ?d j + 4) ?d \<noteq> b ''fmt ''"
      using off [of j] j le len assms(3) by simp
  qed
  have "slice ?p (?p + 4) ?d = slice ?p (?p + 4) data"
    using m by (intro slice4_take) simp_all
  then have a4: "slice (chunk_offset ?d n) (chunk_offset ?d n + 4) ?d = b ''fmt ''"
    using off [of n] assms(4) by simp
  have a5: "chunk_offset ?d n + 24 \<le> length ?d"
    using off [of n] len by simp
  have "read_wav_header ?d =
     Inr \<lparr>hdr_format = u16_at ?d (?p + 8),
          hdr_channels = u16_at ?d (?p + 10),
          hdr_sample_rate = u32_at ?d (?p + 12),
          hdr_bits_per_sample = u16_at ?d (?p + 22),
          hdr_chunk_size = u32_at ?d (?p + 4)\<rparr>"
    using read_wav_header_found [OF a1 a2 a3 a4 a5] off [of n] by simp
  also have "\<dots> = read_wav_header data"
    using m by (simp add: read_wav_header_found [OF assms] u16_at_take u32_at_take)
  finally show ?thesis .
qed


text \<open>
  C5 (amended). During the chunk scan a 4-byte chunk id and a 4-byte chunk size are
  read at every step at which more than 8 bytes remain from the current offset (the
  loop condition is \<^verbatim>\<open>pos < len(data) - 8\<close>); with 8 bytes or fewer remaining the scan
  ends with the missing-format-chunk error; and \<^verbatim>\<open>read_wav_header\<close> raises that
  error only after the scan, started at offset 12, has reached such a position
  having passed only chunks whose id is not \<^verbatim>\<open>fmt \<close>.
\<close>

theorem find_fmt_scan:
  "(pos + 8 < length data \<longrightarrow>
      length (slice pos (pos + 4) data) = 4
      \<and> unpack_I (slice (pos + 4) (pos + 8) data) = Inr (u32_at data (pos + 4))
      \<and> find_fmt data pos =
          (if slice pos (pos + 4) data = b ''fmt ''
           then parse_fmt data pos (u32_at data (pos + 4))
           else find_fmt data (next_chunk data pos)))
   \<and> (length data \<le> pos + 8 \<longrightarrow> find_fmt data pos = Inl missing_format_chunk)
   \<and> (read_wav_header data = Inl missing_format_chunk \<longrightarrow>
        (\<exists>n. length data \<le> chunk_offset data n + 8
           \<and> (\<forall>j<n. chunk_offset data j + 8 < length data
                 \<and> slice (chunk_offset data j) (chunk_offset data j + 4) data \<noteq> b ''fmt '')))"
proof (intro conjI impI)
  assume more: "pos + 8 < length data"
  then show "length (slice pos (pos + 4) data) = 4"
    by (simp add: slice_def)
  show "unpack_I (slice (pos + 4) (pos + 8) data) = Inr (u32_at data (pos + 4))"
    using more by (intro unpack_I_slice) simp_all
  show "find_fmt data pos =
          (if slice pos (pos + 4) data = b ''fmt ''
           then parse_fmt data pos (u32_at data (pos + 4))
           else find_fmt data (next_chunk data pos))"
    using more by (rule find_fmt_step)
next
  assume "length data \<le> pos + 8"
  then show "find_fmt data pos = Inl missing_format_chunk"
    by (simp add: find_fmt_exhausted missing_format_chunk_def)
next
  assume "read_wav_header data = Inl missing_format_chunk"
  then have "find_fmt data 12 = Inl (ValueError ''No fmt chunk found in WAV file'')"
    by (simp add: read_wav_header_def missing_format_chunk_def split: if_splits)
  then show "\<exists>n. length data \<le> chunk_offset data n + 8
           \<and> (\<forall>j<n. chunk_offset data j + 8 < length data
                 \<and> slice (chunk_offset data j) (chunk_offset data j + 4) data \<noteq> b ''fmt '')"
    unfolding chunk_offset_def by (rule find_fmt_missing_trace)
qed

theorem find_fmt_scan_witness:
  "(length (slice 12 (12 + 4) (wav_header_bytes 0 16000)) = 4
      \<and> unpack_I (slice (12 + 4) (12 + 8) (wav_header_bytes 0 16000))
          = Inr (u32_at (wav_header_bytes 0 16000) (12 + 4))
      \<and> find_fmt (wav_header_bytes 0 16000) 12 =
          (if slice 12 (12 + 4) (wav_header_bytes 0 16000) = b ''fmt ''
           then parse_fmt (wav_header_bytes 0 16000) 12 (u32_at (wav_header_bytes 0 16000) (12 + 4))
           else find_fmt (wav_header_bytes 0 16000) (next_chunk (wav_header_bytes 0 16000) 12)))
   \<and> find_fmt (b ''RIFF'' @ le32 12 @ b ''WAVE'' @ b ''data'' @ le32 0) 12
       = Inl missing_format_chunk
   \<and> (\<exists>n. length (b ''RIFF'' @ le32 12 @ b ''WAVE'' @ b ''data'' @ le32 0)
              \<le> chunk_offset (b ''RIFF'' @ le32 12 @ b ''WAVE'' @ b ''data'' @ le32 0) n + 8
           \<and> (\<forall>j<n. chunk_offset (b ''RIFF'' @ le32 12 @ b ''WAVE'' @ b ''data'' @ le32 0) j + 8
                     < length (b ''RIFF'' @ le32 12 @ b ''WAVE'' @ b ''data'' @ le32 0)
                 \<and> slice (chunk_offset (b ''RIFF'' @ le32 12 @ b ''WAVE'' @ b ''data'' @ le32 0) j)
                     (chunk_offset (b ''RIFF'' @ le32 12 @ b ''WAVE'' @ b ''data'' @ le32 0) j + 4)
                     (b ''RIFF'' @ le32 12 @ b ''WAVE'' @ b ''data'' @ le32 0) \<noteq> b ''fmt ''))"
proof -
  let ?d = "b ''RIFF'' @ le32 12 @ b ''WAVE'' @ b ''data'' @ le32 0"
  have h1: "12 + 8 < length (wav_header_bytes 0 16000)"
    by (simp add: length_wav_header_bytes)
  have h2: "length ?d \<le> 12 + 8"
    by (simp add: length_b length_le32)
  have "read_wav_header ?d = Inl (ValueError ''No fmt chunk found in WAV file'')"
    using read_wav_header_data_only [of "le32 12" "[]" "[]"] by (simp add: length_le32)
  then have h3: "read_wav_header ?d = Inl missing_format_chunk"
    by (simp add: missing_format_chunk_def)
  show ?thesis
    using find_fmt_scan [of 12 "wav_header_bytes 0 16000"] h1
      find_fmt_scan [of 12 ?d] h2 h3
    by blast
qed

theorem find_fmt_scan_counterexample:
  "int (length (b ''RIFF'' @ le32 12 @ b ''WAVE'' @ b ''fmt '' @ le32 16)) - 12 = 8
   \<and> slice 12 16 (b ''RIFF'' @ le32 12 @ b ''WAVE'' @ b ''fmt '' @ le32 16) = b ''fmt ''
   \<and> read_wav_header (b ''RIFF'' @ le32 12 @ b ''WAVE'' @ b ''fmt '' @ le32 16)
       = Inl missing_format_chunk"
  by (simp add: read_wav_header_def slice_def length_b length_le32 find_fmt_exhausted
        missing_format_chunk_def)

text \<open>
  C6 (amended). For every buffer with the RIFF/WAVE prefix in which the chunks at the
  offsets \<open>12 = chunk_offset data 0, \<dots>, chunk_offset data (n - 1)\<close> are not
  \<^verbatim>\<open>fmt \<close> chunks (each followed by more than 8 bytes, each skipped by 8 bytes plus
  its declared size plus one pad byte when that size is odd), the chunk at
  \<open>chunk_offset data n\<close> is a \<^verbatim>\<open>fmt \<close> chunk, and the buffer holds at least 24 bytes
  from that chunk's start: \<^verbatim>\<open>read_wav_header\<close> returns the audio format read at
  chunk offset +8, the channel count at +10, the sample rate at +12 (4 bytes), the
  bits per sample at +22 and the chunk's declared size, whatever follows those 24
  bytes.
\<close>

theorem read_wav_header_first_fmt:
  assumes "slice 0 4 data = b ''RIFF''" "slice 8 12 data = b ''WAVE''"
    and "\<forall>j<n. chunk_offset data j + 8 < length data
           \<and> slice (chunk_offset data j) (chunk_offset data j + 4) data \<noteq> b ''fmt ''"
    and "slice (chunk_offset data n) (chunk_offset data n + 4) data = b ''fmt ''"
    and "chunk_offset data n + 24 \<le> length data"
  shows "read_wav_header data =
           Inr \<lparr>hdr_format = u16_at data (chunk_offset data n + 8),
                hdr_channels = u16_at data (chunk_offset data n + 10),
                hdr_sample_rate = u32_at data (chunk_offset data n + 12),
                hdr_bits_per_sample = u16_at data (chunk_offset data n + 22),
                hdr_chunk_size = u32_at data (chunk_offset data n + 4)\<rparr>
         \<and> (\<forall>rest. read_wav_header (take (chunk_offset data n + 24) data @ rest)
                    = read_wav_header data)"
  using read_wav_header_found [OF assms] read_wav_header_prefix_only [OF assms] by simp


lemma list_then_fmt_bytes:
  "list_then_fmt =
     [82, 73, 70, 70, 52, 0, 0, 0, 87, 65, 86, 69,
      76, 73, 83, 84, 3, 0, 0, 0, 1, 2, 3, 0,
      102, 109, 116, 32, 16, 0, 0, 0, 1, 0, 1, 0, 128, 62, 0, 0, 0, 125, 0, 0, 2, 0, 16, 0,
      100, 97, 116, 97, 0, 0, 0, 0]"
  by (simp add: list_then_fmt_def b_def le32_def le16_def)

theorem read_wav_header_first_fmt_witness:
  "read_wav_header list_then_fmt =
           Inr \<lparr>hdr_format = 1, hdr_channels = 1, hdr_sample_rate = 16000,
                hdr_bits_per_sample = 16, hdr_chunk_size = 16\<rparr>
   \<and> chunk_offset list_then_fmt 1 = 24
   \<and> (\<forall>rest. read_wav_header (take 48 list_then_fmt @ rest) = read_wav_header list_then_fmt)"
proof -
  have off0: "chunk_offset list_then_fmt 0 = 12"
    by (simp add: chunk_offset_def)
  have off1: "chunk_offset list_then_fmt 1 = 24"
    by (simp add: chunk_offset_def next_chunk_def u32_at_def list_then_fmt_bytes)
  have h1: "slice 0 4 list_then_fmt = b ''RIFF''" and h2: "slice 8 12 list_then_fmt = b ''WAVE''"
    by (simp_all add: slice_def list_then_fmt_bytes b_def)
  have h3: "\<forall>j<1. chunk_offset list_then_fmt j + 8 < length list_then_fmt
           \<and> slice (chunk_offset list_then_fmt j) (chunk_offset list_then_fmt j + 4) list_then_fmt
               \<noteq> b ''fmt ''"
    using off0 by (simp add: slice_def list_then_fmt_bytes b_def)
  have h4: "slice (chunk_offset list_then_fmt 1) (chunk_offset list_then_fmt 1 + 4) list_then_fmt
              = b ''fmt ''"
    unfolding off1 by (simp add: slice_def list_then_fmt_bytes b_def)
  have h5: "chunk_offset list_then_fmt 1 + 24 \<le> length list_then_fmt"
    unfolding off1 by (simp add: list_then_fmt_bytes)
  have v: "u16_at list_then_fmt 32 = 1" "u16_at list_then_fmt 34 = 1"
    "u32_at list_then_fmt 36 = 16000" "u16_at list_then_fmt 46 = 16" "u32_at list_then_fmt 28 = 16"
    by (simp_all add: u16_at_def u32_at_def list_then_fmt_bytes)
  show ?thesis
    using read_wav_header_first_fmt [OF h1 h2 h3 h4 h5] v unfolding off1 by simp
qed

theorem read_wav_header_first_fmt_counterexample:
  "slice 0 4 (b ''RIFF'' @ le32 26 @ b ''WAVE'' @ b ''fmt '' @ le32 16
                @ le16 1 @ le16 1 @ le32 16000 @ le32 32000 @ le16 2) = b ''RIFF''
   \<and> slice 8 12 (b ''RIFF'' @ le32 26 @ b ''WAVE'' @ b ''fmt '' @ le32 16
                @ le16 1 @ le16 1 @ le32 16000 @ le32 32000 @ le16 2) = b ''WAVE''
   \<and> slice 12 16 (b ''RIFF'' @ le32 26 @ b ''WAVE'' @ b ''fmt '' @ le32 16
                @ le16 1 @ le16 1 @ le32 16000 @ le32 32000 @ le16 2) = b ''fmt ''
   \<and> read_wav_header (b ''RIFF'' @ le32 26 @ b ''WAVE'' @ b ''fmt '' @ le32 16
                @ le16 1 @ le16 1 @ le32 16000 @ le32 32000 @ le16 2) = Inl StructError"
  by (simp add: read_wav_header_def slice_def b_def le32_def le16_def find_fmt.simps
        parse_fmt_def)



section \<open>The array encoder\<close>

declare rows_of_16.simps [simp del]

lemma hex_literal_code: "(\<lambda>x. CHR ''0'' # CHR ''x'' # format_02X x) = hex_literal"
  by (simp add: fun_eq_iff hex_literal_def format_02X_def)

lemma hex_val_digit: "\<forall>n<16. hex_val (hex_digit n) = n \<and> hex_digit n \<in> set ''0123456789ABCDEF''"
  by (simp add: eval_nat_numeral All_less_Suc hex_digit_def hex_val_def)

lemma emit_rows_render:
  "emit_rows data i acc = acc @ render_rows (rows_of_16 (drop i data))"
proof (induction "length data - i" arbitrary: i acc rule: less_induct)
  case less
  show ?case
  proof (cases "i < length data")
    case False
    then show ?thesis
      by (subst emit_rows.simps) (simp add: rows_of_16.simps)
  next
    case True
    have ih: "emit_rows data (i + 16) out = out @ render_rows (rows_of_16 (drop (i + 16) data))" for out
      using True by (intro less.hyps) linarith
    have rows: "rows_of_16 (drop i data) = take 16 (drop i data) # rows_of_16 (drop (i + 16) data)"
      using True by (subst rows_of_16.simps) (simp add: add.commute)
    show ?thesis
    proof (cases "i + 16 < length data")
      case True
      then have "rows_of_16 (drop (i + 16) data)
                 = take 16 (drop (i + 16) data) # rows_of_16 (drop 16 (drop (i + 16) data))"
        by (subst rows_of_16.simps) simp
      then show ?thesis
        using True \<open>i < length data\<close> rows
        by (subst emit_rows.simps) (simp add: ih Let_def slice_def hex_literal_code)
    next
      case False
      then have "rows_of_16 (drop (i + 16) data) = []"
        by (subst rows_of_16.simps) simp
      then show ?thesis
        using False \<open>i < length data\<close> rows
        by (subst emit_rows.simps) (simp add: ih Let_def slice_def hex_literal_code)
    qed
  qed
qed


lemma rows_of_16_Nil: "rows_of_16 [] = []"
  by (subst rows_of_16.simps) simp

lemma length_rows_of_16: "length (rows_of_16 xs) = (length xs + 15) div 16"
proof (induction xs rule: rows_of_16.induct)
  case (1 xs)
  show ?case
  proof (cases "xs = []")
    case True
    then show ?thesis by (subst rows_of_16.simps) simp
  next
    case False
    then have "0 < length xs" by simp
    have "Suc ((length xs - 16 + 15) div 16) = (length xs + 15) div 16"
    proof (cases "16 \<le> length xs")
      case True
      then obtain m where m: "length xs = m + 16"
        using le_Suc_ex [of 16 "length xs"] by (auto simp add: add.commute)
      show ?thesis unfolding m by simp
    next
      case False
      have "(length xs + 15) div 16 = 1"
        using False \<open>0 < length xs\<close> by (intro div_nat_eqI) (simp_all add: Suc_le_eq)
      then show ?thesis using False by simp
    qed
    then show ?thesis
      using False "1.IH" by (subst rows_of_16.simps) simp
  qed
qed

lemma nth_rows_of_16:
  "k < length (rows_of_16 xs) \<Longrightarrow> rows_of_16 xs ! k = take 16 (drop (16 * k) xs)"
proof (induction xs arbitrary: k rule: rows_of_16.induct)
  case (1 xs)
  have ne: "xs \<noteq> []"
    using "1.prems" by (auto simp add: rows_of_16_Nil)
  then have unf: "rows_of_16 xs = take 16 xs # rows_of_16 (drop 16 xs)"
    by (subst rows_of_16.simps) simp
  show ?case
  proof (cases k)
    case 0
    then show ?thesis by (simp add: unf)
  next
    case (Suc j)
    then have "j < length (rows_of_16 (drop 16 xs))"
      using "1.prems" unf by simp
    then have "rows_of_16 (drop 16 xs) ! j = take 16 (drop (16 * j) (drop 16 xs))"
      using ne by (rule "1.IH" [rotated])
    then show ?thesis using Suc by (simp add: unf add.commute)
  qed
qed

lemma rows_of_17:
  assumes "length data = 17"
  shows "rows_of_16 data = [take 16 data, [data ! 16]]"
proof -
  have d: "drop 16 data = [data ! 16]"
    using assms by (simp add: list_eq_iff_nth_eq)
  have "data \<noteq> []" using assms by auto
  then have "rows_of_16 data = take 16 data # rows_of_16 (drop 16 data)"
    by (subst rows_of_16.simps) simp
  moreover have "rows_of_16 (drop 16 data) = [data ! 16] # rows_of_16 []"
    unfolding d by (subst rows_of_16.simps) simp
  ultimately show ?thesis by (simp add: rows_of_16_Nil)
qed

lemma parse_fmt_truncated:
  assumes "length data < pos + 24"
  shows "\<exists>e. parse_fmt data pos sz = Inl e"
proof -
  have "length (slice (pos + 22) (pos + 24) data) < 2"
    using assms by (simp add: slice_def)
  then have "unpack_H (slice (pos + 22) (pos + 24) data) = Inl StructError"
    by (cases "slice (pos + 22) (pos + 24) data" rule: unpack_H.cases) simp_all
  then show ?thesis
    by (simp add: parse_fmt_def split: sum.splits)
qed

lemma find_fmt_short:
  assumes "length data < 36" "12 \<le> pos"
  shows "\<exists>e. find_fmt data pos = Inl e"
  using assms(2)
proof (induction "length data - pos" arbitrary: pos rule: less_induct)
  case less
  show ?case
  proof (cases "pos + 8 < length data")
    case False
    then show ?thesis by (simp add: find_fmt_exhausted)
  next
    case True
    have "\<exists>e. find_fmt data (next_chunk data pos) = Inl e"
      using True less.prems next_chunk_gt [of pos data] by (intro less.hyps) linarith+
    moreover have "\<exists>e. parse_fmt data pos (u32_at data (pos + 4)) = Inl e"
      using assms(1) less.prems by (intro parse_fmt_truncated) simp
    ultimately show ?thesis
      using True by (simp add: find_fmt_step)
  qed
qed

lemma read_wav_header_short: "length data < 36 \<Longrightarrow> \<exists>e. read_wav_header data = Inl e"
  using find_fmt_short [of data 12] by (simp add: read_wav_header_def)


lemma wav_to_c_array_text:
  assumes "fs wav_file = Some data" "read_wav_header data = Inr h"
  shows "wav_to_c_array fs wav_file var_name =
           Inr (''// '' @ basename wav_file @ ''\<newline>''
                 @ ''// Format: '' @ str_nat (hdr_channels h) @ '' channel(s), ''
                 @ str_nat (hdr_sample_rate h) @ '' Hz, ''
                 @ str_nat (hdr_bits_per_sample h) @ ''-bit\<newline>''
                 @ ''// Size: '' @ str_nat (length data) @ '' bytes\<newline>\<newline>''
                 @ ''const uint8_t PROGMEM '' @ var_name @ ''[] = {\<newline>''
                 @ render_rows (rows_of_16 data)
                 @ ''};\<newline>''
                 @ ''const uint32_t '' @ var_name @ ''_len = sizeof('' @ var_name
                 @ '');\<newline>'')"
  using assms by (simp add: wav_to_c_array_def Let_def emit_rows_render)

lemma hex_literal_shape:
  "hex_digit (unat (x :: byte) div 16) \<in> set ''0123456789ABCDEF''
   \<and> hex_digit (unat x mod 16) \<in> set ''0123456789ABCDEF''
   \<and> 16 * hex_val (hex_digit (unat x div 16)) + hex_val (hex_digit (unat x mod 16)) = unat x"
proof -
  have "unat x < 256" using unsigned_less [of x] by simp
  then have "unat x div 16 < 16" by simp
  moreover have "unat x mod 16 < 16" by simp
  ultimately show ?thesis using hex_val_digit by simp
qed

text \<open>
  C7 (amended). Encoding an input of zero bytes does not succeed: the header parser
  rejects the empty buffer with the invalid-container error (missing RIFF header)
  and no text is produced. Only the row loop, run on zero bytes, yields an empty
  body.
\<close>

theorem wav_to_c_array_empty:
  "wav_to_c_array (fs(wav_file \<mapsto> [])) wav_file var_name
     = Inl (ValueError ''Not a valid WAV file (missing RIFF header)'')
   \<and> invalid_container (ValueError ''Not a valid WAV file (missing RIFF header)'')
   \<and> emit_rows [] 0 acc = acc
   \<and> render_rows (rows_of_16 []) = []"
  by (simp add: wav_to_c_array_def read_wav_header_def slice_def b_def invalid_container_def
        emit_rows.simps rows_of_16_Nil)

theorem wav_to_c_array_empty_counterexample:
  "wav_to_c_array [''empty.wav'' \<mapsto> []] ''empty.wav'' ''wav_empty''
     = Inl (ValueError ''Not a valid WAV file (missing RIFF header)'')"
  by (simp add: wav_to_c_array_def read_wav_header_def slice_def b_def)


text \<open>
  C8 (amended). For every input the header parser accepts, the encoder's text is
  the comment block and the declaration line, then the rows as the specification
  words them (\<open>render_rows (rows_of_16 data)\<close>: row \<open>k\<close> holds the bytes
  \<open>16 * k\<close> to \<open>16 * k + 15\<close>, each as \<^verbatim>\<open>0xHH\<close> with two upper-case hexadecimal
  digits that denote the byte, comma-and-space separated, a comma after every row
  but the one with the final byte), then the closing lines. On 17 bytes the row loop
  emits exactly two rows, 16 bytes with a trailing comma and 1 byte without; but no
  17-byte input reaches the loop, since the parser rejects every buffer shorter
  than 36 bytes.
\<close>

theorem wav_to_c_array_rows:
  "(fs wav_file = Some data \<and> read_wav_header data = Inr h \<longrightarrow>
      wav_to_c_array fs wav_file var_name =
           Inr (''// '' @ basename wav_file @ ''\<newline>''
                 @ ''// Format: '' @ str_nat (hdr_channels h) @ '' channel(s), ''
                 @ str_nat (hdr_sample_rate h) @ '' Hz, ''
                 @ str_nat (hdr_bits_per_sample h) @ ''-bit\<newline>''
                 @ ''// Size: '' @ str_nat (length data) @ '' bytes\<newline>\<newline>''
                 @ ''const uint8_t PROGMEM '' @ var_name @ ''[] = {\<newline>''
                 @ render_rows (rows_of_16 data)
                 @ ''};\<newline>''
                 @ ''const uint32_t '' @ var_name @ ''_len = sizeof('' @ var_name
                 @ '');\<newline>''))
   \<and> length (rows_of_16 data) = (length data + 15) div 16
   \<and> (\<forall>k<length (rows_of_16 data). rows_of_16 data ! k = take 16 (drop (16 * k) data))
   \<and> hex_literal x = [CHR ''0'', CHR ''x'', hex_digit (unat x div 16), hex_digit (unat x mod 16)]
   \<and> hex_digit (unat x div 16) \<in> set ''0123456789ABCDEF''
   \<and> hex_digit (unat x mod 16) \<in> set ''0123456789ABCDEF''
   \<and> 16 * hex_val (hex_digit (unat x div 16)) + hex_val (hex_digit (unat x mod 16)) = unat x
   \<and> (length data = 17 \<longrightarrow>
        rows_of_16 data = [take 16 data, [data ! 16]]
        \<and> emit_rows data 0 [] =
            ''    '' @ join '', '' (map hex_literal (take 16 data)) @ '','' @ ''\<newline>''
            @ ''    '' @ hex_literal (data ! 16) @ ''\<newline>'')
   \<and> (fs wav_file = Some data \<and> length data < 36 \<longrightarrow>
        (\<exists>e. wav_to_c_array fs wav_file var_name = Inl e))"
proof (intro conjI impI allI)
  assume "fs wav_file = Some data \<and> read_wav_header data = Inr h"
  then show "wav_to_c_array fs wav_file var_name =
           Inr (''// '' @ basename wav_file @ ''\<newline>''
                 @ ''// Format: '' @ str_nat (hdr_channels h) @ '' channel(s), ''
                 @ str_nat (hdr_sample_rate h) @ '' Hz, ''
                 @ str_nat (hdr_bits_per_sample h) @ ''-bit\<newline>''
                 @ ''// Size: '' @ str_nat (length data) @ '' bytes\<newline>\<newline>''
                 @ ''const uint8_t PROGMEM '' @ var_name @ ''[] = {\<newline>''
                 @ render_rows (rows_of_16 data)
                 @ ''};\<newline>''
                 @ ''const uint32_t '' @ var_name @ ''_len = sizeof('' @ var_name
                 @ '');\<newline>'')"
    by (simp add: wav_to_c_array_text)
next
  show "length (rows_of_16 data) = (length data + 15) div 16"
    by (rule length_rows_of_16)
next
  fix k assume "k < length (rows_of_16 data)"
  then show "rows_of_16 data ! k = take 16 (drop (16 * k) data)"
    by (rule nth_rows_of_16)
next
  show "hex_literal x = [CHR ''0'', CHR ''x'', hex_digit (unat x div 16), hex_digit (unat x mod 16)]"
    by (simp add: hex_literal_def)
next
  show "hex_digit (unat x div 16) \<in> set ''0123456789ABCDEF''"
    using hex_literal_shape [of x] by blast
next
  show "hex_digit (unat x mod 16) \<in> set ''0123456789ABCDEF''"
    using hex_literal_shape [of x] by blast
next
  show "16 * hex_val (hex_digit (unat x div 16)) + hex_val (hex_digit (unat x mod 16)) = unat x"
    using hex_literal_shape [of x] by blast
next
  assume "length data = 17"
  then show "rows_of_16 data = [take 16 data, [data ! 16]]"
    by (rule rows_of_17)
next
  assume "length data = 17"
  then show "emit_rows data 0 [] =
            ''    '' @ join '', '' (map hex_literal (take 16 data)) @ '','' @ ''\<newline>''
            @ ''    '' @ hex_literal (data ! 16) @ ''\<newline>''"
    by (simp add: emit_rows_render rows_of_17)
next
  assume "fs wav_file = Some data \<and> length data < 36"
  then show "\<exists>e. wav_to_c_array fs wav_file var_name = Inl e"
    using read_wav_header_short [of data] by (auto simp add: wav_to_c_array_def)
qed

theorem wav_to_c_array_rows_witness:
  "wav_to_c_array [''a.wav'' \<mapsto> wav_header_bytes 0 16000] ''a.wav'' ''wav_a'' =
           Inr (''// '' @ basename ''a.wav'' @ ''\<newline>''
                 @ ''// Format: '' @ str_nat 1 @ '' channel(s), ''
                 @ str_nat 16000 @ '' Hz, ''
                 @ str_nat 16 @ ''-bit\<newline>''
                 @ ''// Size: '' @ str_nat (length (wav_header_bytes 0 16000))
                 @ '' bytes\<newline>\<newline>''
                 @ ''const uint8_t PROGMEM '' @ ''wav_a'' @ ''[] = {\<newline>''
                 @ render_rows (rows_of_16 (wav_header_bytes 0 16000))
                 @ ''};\<newline>''
                 @ ''const uint32_t '' @ ''wav_a'' @ ''_len = sizeof('' @ ''wav_a''
                 @ '');\<newline>'')
   \<and> rows_of_16 riff_17 = [take 16 riff_17, [riff_17 ! 16]]
   \<and> emit_rows riff_17 0 [] =
            ''    '' @ join '', '' (map hex_literal (take 16 riff_17)) @ '','' @ ''\<newline>''
            @ ''    '' @ hex_literal (riff_17 ! 16) @ ''\<newline>''
   \<and> (\<exists>e. wav_to_c_array [''b.wav'' \<mapsto> riff_17] ''b.wav'' ''wav_b'' = Inl e)"
proof -
  let ?h = "\<lparr>hdr_format = 1, hdr_channels = 1, hdr_sample_rate = 16000,
             hdr_bits_per_sample = 16, hdr_chunk_size = 16\<rparr>"
  have h1: "read_wav_header (wav_header_bytes 0 16000) = Inr ?h"
    using read_wav_header_written [of 16000 0 "[]"] by simp
  have h2: "length riff_17 = 17"
    by (simp add: riff_17_def length_b length_le32)
  show ?thesis
    using h1 h2
      wav_to_c_array_rows [where fs = "[''a.wav'' \<mapsto> wav_header_bytes 0 16000]"
        and wav_file = "''a.wav''" and data = "wav_header_bytes 0 16000" and h = ?h
        and var_name = "''wav_a''"]
      wav_to_c_array_rows [where fs = "[''b.wav'' \<mapsto> riff_17]"
        and wav_file = "''b.wav''" and data = "riff_17" and var_name = "''wav_b''"]
    by simp
qed

theorem wav_to_c_array_rows_counterexample:
  "length (b ''RIFF'' @ le32 9 @ b ''WAVE'' @ [0, 1, 2, 3, 4]) = 17
   \<and> wav_to_c_array [''x.wav'' \<mapsto> b ''RIFF'' @ le32 9 @ b ''WAVE'' @ [0, 1, 2, 3, 4]] ''x.wav'' ''x''
       = Inl missing_format_chunk"
  by (simp add: wav_to_c_array_def read_wav_header_def slice_def length_b length_le32
        find_fmt_exhausted missing_format_chunk_def)



section \<open>Double rounding\<close>

lemma bitlen_pos: "0 < m \<Longrightarrow> 1 \<le> bitlen m"
  using bitlen_eq_zero_iff [of m] bitlen_nonneg [of m] by linarith

lemma powi_nat: "0 \<le> c \<Longrightarrow> (2 :: rat) powi c = 2 ^ nat c"
  by (simp add: power_int_def)

lemma powi_neg: "0 \<le> c \<Longrightarrow> (2 :: rat) powi (- c) = 1 / 2 ^ nat c"
  by (simp add: power_int_minus powi_nat divide_inverse)

lemma ilog2_bounds:
  assumes "0 < x"
  shows "2 powi (ilog2 x) \<le> x \<and> x < 2 powi (ilog2 x + 1)"
proof (cases "1 \<le> x")
  case True
  define m where "m = \<lfloor>x\<rfloor>"
  define c where "c = bitlen m"
  have m: "1 \<le> m" using True by (simp add: m_def le_floor_iff)
  then have c: "1 \<le> c" unfolding c_def by (intro bitlen_pos) simp
  have b: "2 ^ nat (c - 1) \<le> m" "m < 2 ^ nat c"
    using bitlen_bounds [of m] m by (simp_all add: c_def)
  have e: "ilog2 x = c - 1" using True by (simp add: ilog2_def m_def c_def)
  have "(2 :: rat) ^ nat (c - 1) \<le> of_int m"
    using b(1) by (metis of_int_le_iff of_int_numeral of_int_power)
  also have "\<dots> \<le> x" unfolding m_def by linarith
  finally have lo: "2 powi (c - 1) \<le> x" using c by (simp add: powi_nat)
  have "m + 1 \<le> 2 ^ nat c" using b(2) by simp
  then have "(of_int (m + 1) :: rat) \<le> 2 ^ nat c"
    by (metis of_int_le_iff of_int_numeral of_int_power)
  moreover have "x < of_int (m + 1)" unfolding m_def by linarith
  ultimately have "x < 2 ^ nat c" by linarith
  then have hi: "x < 2 powi c" using c by (simp add: powi_nat)
  show ?thesis using lo hi by (simp add: e)
next
  case False
  define y where "y = 1 / x"
  define m where "m = \<lceil>y\<rceil> - 1"
  define c where "c = bitlen m"
  have y: "1 < y" using False assms by (simp add: y_def)
  then have m: "1 \<le> m" unfolding m_def by (simp add: less_ceiling_iff)
  then have c: "1 \<le> c" unfolding c_def by (intro bitlen_pos) simp
  have b: "2 ^ nat (c - 1) \<le> m" "m < 2 ^ nat c"
    using bitlen_bounds [of m] m by (simp_all add: c_def)
  have e: "ilog2 x = - c" using False by (simp add: ilog2_def m_def c_def y_def)
  have "m + 1 \<le> 2 ^ nat c" using b(2) by simp
  then have "(of_int (m + 1) :: rat) \<le> 2 ^ nat c"
    by (metis of_int_le_iff of_int_numeral of_int_power)
  moreover have "y \<le> of_int (m + 1)" unfolding m_def by linarith
  ultimately have "1 / x \<le> 2 ^ nat c" unfolding y_def by linarith
  then have "1 / 2 ^ nat c \<le> x"
    using assms by (simp add: field_simps)
  then have lo: "2 powi (- c) \<le> x" using c by (simp add: powi_neg)
  have "(2 :: rat) ^ nat (c - 1) \<le> of_int m"
    using b(1) by (metis of_int_le_iff of_int_numeral of_int_power)
  moreover have "of_int m < y" unfolding m_def by linarith
  ultimately have "2 ^ nat (c - 1) < 1 / x" unfolding y_def by linarith
  then have "x < 1 / 2 ^ nat (c - 1)"
    using assms by (simp add: field_simps)
  moreover have "(2 :: rat) powi (- (c - 1)) = 1 / 2 ^ nat (c - 1)"
    using c by (intro powi_neg) simp
  ultimately have hi: "x < 2 powi (- (c - 1))" by simp
  have "- c + 1 = - (c - 1)" by simp
  then show ?thesis using lo hi unfolding e by metis
qed


lemma powi_less_exp: "(2 :: rat) powi a < 2 powi c \<Longrightarrow> a < c"
proof (rule ccontr)
  assume lt: "(2 :: rat) powi a < 2 powi c" and "\<not> a < c"
  then have "c \<le> a" by simp
  then have "(2 :: rat) powi c \<le> 2 powi a" by (intro power_int_increasing) simp_all
  then show False using lt by simp
qed

lemma powi_split: "(2 :: rat) powi (a + c) = 2 powi a * 2 powi c"
  by (simp add: power_int_add)

lemma powi_diff_int: "q \<le> k \<Longrightarrow> (2 :: rat) powi k = of_int (2 ^ nat (k - q)) * 2 powi q"
proof -
  assume "q \<le> k"
  have "(2 :: rat) powi k = 2 powi ((k - q) + q)" by simp
  also have "\<dots> = 2 powi (k - q) * 2 powi q" by (rule powi_split)
  also have "(2 :: rat) powi (k - q) = 2 ^ nat (k - q)"
    using \<open>q \<le> k\<close> by (intro powi_nat) simp
  finally show ?thesis by simp
qed

lemma round_half_even_le: "x \<le> of_int n \<Longrightarrow> round_half_even x \<le> n"
proof -
  assume le: "x \<le> of_int n"
  show ?thesis
  proof (cases "x = of_int n")
    case True
    then show ?thesis by (simp add: round_half_even_def)
  next
    case False
    then have "x < of_int n" using le by simp
    then have "\<lfloor>x\<rfloor> < n" by (simp add: floor_less_iff)
    then show ?thesis by (simp add: round_half_even_def Let_def)
  qed
qed

lemma round_half_even_ge: "of_int n \<le> x \<Longrightarrow> n \<le> round_half_even x"
proof -
  assume "of_int n \<le> x"
  then have "n \<le> \<lfloor>x\<rfloor>" by (simp add: le_floor_iff)
  then show ?thesis by (simp add: round_half_even_def Let_def)
qed

lemma round_half_even_of_int: "round_half_even (of_int n) = n"
  by (simp add: round_half_even_def)

lemma round_half_even_minus: "round_half_even (- x) = - round_half_even x"
proof (cases "x = of_int \<lfloor>x\<rfloor>")
  case True
  then obtain n where "x = of_int n" ..
  then show ?thesis
    by (simp add: round_half_even_of_int flip: of_int_minus)
next
  case False
  define f where "f = \<lfloor>x\<rfloor>"
  define r where "r = x - of_int f"
  have "of_int (- f - 1) \<le> - x" "- x < of_int (- f - 1) + 1"
    using False unfolding f_def by linarith+
  then have fl: "\<lfloor>- x\<rfloor> = - f - 1"
    by (rule floor_unique)
  have r: "0 < r" "r < 1" using False unfolding r_def f_def by linarith+
  have r': "- x - of_int (- f - 1) = 1 - r" by (simp add: r_def)
  have ev: "even (- f - 1) \<longleftrightarrow> odd f" by simp
  have a: "round_half_even x = (if r < 1 / 2 then f else if 1 / 2 < r then f + 1
             else if even f then f else f + 1)"
    by (simp add: round_half_even_def Let_def f_def r_def)
  have b: "round_half_even (- x) = (if 1 - r < 1 / 2 then - f - 1 else if 1 / 2 < 1 - r then - f
             else if odd f then - f - 1 else - f)"
    unfolding round_half_even_def Let_def fl r' ev by simp
  show ?thesis unfolding a b using r by auto
qed

lemma round_double_quantum:
  "round_double x = of_int (round_half_even (x / 2 powi quantum x)) * 2 powi quantum x"
  by (simp add: round_double_def Let_def)

lemma round_double_minus: "round_double (- x) = - round_double x"
  by (simp add: round_double_quantum quantum_def round_half_even_minus)

lemma round_double_zero: "round_double 0 = 0"
  by (simp add: round_double_quantum round_half_even_def)


lemma on_grid:
  assumes "q \<le> k"
  shows "of_int m * (2 :: rat) powi k = of_int (m * 2 ^ nat (k - q)) * 2 powi q"
  using powi_diff_int [OF assms] by simp

lemma round_double_le:
  assumes "0 < x" "x \<le> of_int m * 2 powi k" "m < 2 ^ 53" "- 1074 \<le> k"
  shows "round_double x \<le> of_int m * 2 powi k"
proof -
  define q where "q = quantum x"
  define N where "N = m * 2 ^ nat (k - q)"
  have P: "(0 :: rat) < 2 powi q" by simp
  have "2 powi (ilog2 x) \<le> x" using ilog2_bounds [OF assms(1)] by simp
  also have "x \<le> of_int m * 2 powi k" by (rule assms(2))
  also have "of_int m * (2 :: rat) powi k < 2 ^ 53 * 2 powi k"
  proof (rule mult_strict_right_mono)
    have "(of_int m :: rat) < of_int (2 ^ 53)" using assms(3) by (simp only: of_int_less_iff)
    then show "(of_int m :: rat) < 2 ^ 53" by simp
    show "(0 :: rat) < 2 powi k" by simp
  qed
  also have "(2 :: rat) ^ 53 * 2 powi k = 2 powi (53 + k)"
    by (simp add: powi_split)
  finally have "ilog2 x < 53 + k" by (rule powi_less_exp)
  then have qk: "q \<le> k" using assms(1,4) by (simp add: q_def quantum_def)
  have d: "of_int m * (2 :: rat) powi k = of_int N * 2 powi q"
    unfolding N_def by (rule on_grid [OF qk])
  have "x / 2 powi q \<le> of_int N * 2 powi q / 2 powi q"
    using assms(2) P unfolding d by (intro divide_right_mono) simp_all
  then have "x / 2 powi q \<le> of_int N" by simp
  then have "round_half_even (x / 2 powi q) \<le> N" by (rule round_half_even_le)
  then have "(of_int (round_half_even (x / 2 powi q)) :: rat) \<le> of_int N"
    by (simp only: of_int_le_iff)
  then have "of_int (round_half_even (x / 2 powi q)) * 2 powi q \<le> of_int N * (2 :: rat) powi q"
    using P by (intro mult_right_mono) simp_all
  then show ?thesis unfolding d by (simp add: round_double_quantum q_def)
qed

lemma round_double_ge:
  assumes "0 < m" "of_int m * 2 powi k \<le> x" "m < 2 ^ 53" "- 1074 \<le> k"
  shows "of_int m * 2 powi k \<le> round_double x"
proof -
  define q where "q = quantum x"
  have P: "(0 :: rat) < 2 powi q" by simp
  have dpos: "(0 :: rat) < of_int m * 2 powi k" using assms(1) by simp
  then have x: "0 < x" using assms(2) by linarith
  have rd: "round_double x = of_int (round_half_even (x / 2 powi q)) * 2 powi q"
    by (simp add: round_double_quantum q_def)
  have grid: "of_int N * (2 :: rat) powi q \<le> round_double x" if "of_int N * 2 powi q \<le> x" for N
  proof -
    have "of_int N * 2 powi q / 2 powi q \<le> x / 2 powi q"
      using that P by (intro divide_right_mono) simp_all
    then have "of_int N \<le> x / 2 powi q" by simp
    then have "N \<le> round_half_even (x / 2 powi q)" by (rule round_half_even_ge)
    then have "(of_int N :: rat) \<le> of_int (round_half_even (x / 2 powi q))"
      by (simp only: of_int_le_iff)
    then show ?thesis
      unfolding rd using P by (intro mult_right_mono) simp_all
  qed
  show ?thesis
  proof (cases "q \<le> k")
    case True
    show ?thesis
      using grid [of "m * 2 ^ nat (k - q)"] assms(2) unfolding on_grid [OF True, of m] by simp
  next
    case False
    then have q: "q = ilog2 x - 52" "k + 1 \<le> q"
      using assms(4) x by (simp_all add: q_def quantum_def)
    have e: "(2 :: rat) powi (ilog2 x) = of_int (2 ^ 52) * 2 powi q"
      using powi_diff_int [of q "ilog2 x"] q(1) by simp
    have "of_int (2 ^ 52) * (2 :: rat) powi q \<le> round_double x"
      using ilog2_bounds [OF x] unfolding e by (intro grid) simp
    moreover have "of_int m * (2 :: rat) powi k \<le> 2 powi (ilog2 x)"
    proof -
      have "(of_int m :: rat) \<le> of_int (2 ^ 53)" using assms(3) by (simp only: of_int_le_iff)
      then have "of_int m * (2 :: rat) powi k \<le> 2 ^ 53 * 2 powi k"
        by (intro mult_right_mono) simp_all
      also have "(2 :: rat) ^ 53 * 2 powi k = 2 powi (53 + k)"
        by (simp add: powi_split)
      also have "\<dots> \<le> 2 powi (ilog2 x)"
        using q by (intro power_int_increasing) simp_all
      finally show ?thesis .
    qed
    ultimately show ?thesis unfolding e by linarith
  qed
qed

lemma round_double_exact:
  assumes "\<bar>m\<bar> < 2 ^ 53" "- 1074 \<le> k"
  shows "round_double (of_int m * 2 powi k) = of_int m * 2 powi k"
proof -
  have pos: "round_double (of_int n * 2 powi k) = of_int n * 2 powi k" if "0 < n" "n < 2 ^ 53" for n
  proof (rule antisym)
    have "(0 :: rat) < of_int n * 2 powi k" using that(1) by simp
    then show "round_double (of_int n * 2 powi k) \<le> of_int n * 2 powi k"
      using that(2) assms(2) by (intro round_double_le) simp_all
    show "of_int n * 2 powi k \<le> round_double (of_int n * 2 powi k)"
      using that assms(2) by (intro round_double_ge) simp_all
  qed
  consider "m = 0" | "0 < m" | "m < 0" by linarith
  then show ?thesis
  proof cases
    case 1
    then show ?thesis by (simp add: round_double_zero)
  next
    case 2
    then show ?thesis using assms(1) by (intro pos) simp_all
  next
    case 3
    then have "round_double (of_int (- m) * 2 powi k) = of_int (- m) * 2 powi k"
      using assms(1) by (intro pos) simp_all
    then show ?thesis using round_double_minus [of "of_int m * 2 powi k"] by simp
  qed
qed

lemma round_double_nonneg: "0 \<le> x \<Longrightarrow> 0 \<le> round_double x"
proof -
  assume "0 \<le> x"
  then have "(of_int 0 :: rat) \<le> x / 2 powi quantum x" by simp
  then have "0 \<le> round_half_even (x / 2 powi quantum x)" by (rule round_half_even_ge)
  then show ?thesis by (simp add: round_double_quantum)
qed

lemma round_double_abs_le:
  assumes "\<bar>x\<bar> \<le> of_int m * 2 powi k" "m < 2 ^ 53" "- 1074 \<le> k"
  shows "\<bar>round_double x\<bar> \<le> of_int m * 2 powi k"
proof -
  have pos: "\<bar>round_double y\<bar> \<le> of_int m * 2 powi k" if "0 < y" "y \<le> of_int m * 2 powi k" for y
    using round_double_le [OF that assms(2,3)] round_double_nonneg [of y] that(1) by simp
  consider "x = 0" | "0 < x" | "x < 0" by linarith
  then show ?thesis
  proof cases
    case 1
    then show ?thesis using assms(1) by (simp add: round_double_zero)
  next
    case 2
    then show ?thesis using assms(1) by (intro pos) simp_all
  next
    case 3
    then have "\<bar>round_double (- x)\<bar> \<le> of_int m * 2 powi k"
      using assms(1) by (intro pos) simp_all
    then show ?thesis by (simp add: round_double_minus)
  qed
qed

lemma round_half_even_near:
  assumes "\<bar>x - of_int n\<bar> < 1 / 2"
  shows "round_half_even x = n"
proof (cases "of_int n \<le> x")
  case True
  have "x < of_int n + 1" using assms by linarith
  then have fl: "\<lfloor>x\<rfloor> = n" using True by (intro floor_unique) simp_all
  have "x - of_int n < 1 / 2" using assms by linarith
  then show ?thesis by (simp add: round_half_even_def Let_def fl)
next
  case False
  have "of_int (n - 1) \<le> x" "x < of_int (n - 1) + 1" using assms False by simp_all
  then have fl: "\<lfloor>x\<rfloor> = n - 1" by (rule floor_unique)
  have "- (1 / 2) < x - of_int n" using assms by linarith
  then have "1 / 2 < x - of_int (n - 1)" by simp
  then show ?thesis by (simp add: round_half_even_def Let_def fl)
qed

lemma round_half_even_below:
  assumes "x < of_int n + 1 / 2"
  shows "round_half_even x \<le> n"
proof (cases "x \<le> of_int n")
  case True
  then show ?thesis by (rule round_half_even_le)
next
  case False
  then have "\<bar>x - of_int n\<bar> < 1 / 2" using assms by linarith
  then show ?thesis by (simp add: round_half_even_near)
qed

lemma round_half_even_err: "\<bar>of_int (round_half_even x) - x\<bar> \<le> 1 / 2"
proof -
  define f where "f = \<lfloor>x\<rfloor>"
  define r where "r = x - of_int f"
  have r: "0 \<le> r" "r < 1" unfolding r_def f_def by linarith+
  have x: "x = of_int f + r" by (simp add: r_def)
  have "round_half_even x = (if r < 1 / 2 then f else if 1 / 2 < r then f + 1
             else if even f then f else f + 1)"
    by (simp add: round_half_even_def Let_def f_def r_def)
  then show ?thesis unfolding x using r by auto
qed

lemma ilog2_unique:
  assumes "2 powi e \<le> x" "x < 2 powi (e + 1)"
  shows "ilog2 x = e"
proof -
  have "(0 :: rat) < 2 powi e" by simp
  then have x: "0 < x" using assms(1) by linarith
  have "(2 :: rat) powi (ilog2 x) < 2 powi (e + 1)"
    using ilog2_bounds [OF x] assms(2) by linarith
  then have "ilog2 x < e + 1" by (rule powi_less_exp)
  moreover have "(2 :: rat) powi e < 2 powi (ilog2 x + 1)"
    using ilog2_bounds [OF x] assms(1) by linarith
  then have "e < ilog2 x + 1" by (rule powi_less_exp)
  ultimately show ?thesis by simp
qed

lemma round_double_near:
  assumes "2 powi e \<le> \<bar>x\<bar>" "\<bar>x\<bar> < 2 powi (e + 1)" "- 1022 \<le> e"
    "\<bar>x / 2 powi (e - 52) - of_int n\<bar> < 1 / 2"
  shows "round_double x = of_int n * 2 powi (e - 52)"
proof -
  have "ilog2 \<bar>x\<bar> = e" using assms(1,2) by (rule ilog2_unique)
  then have q: "quantum x = e - 52" using assms(3) by (simp add: quantum_def)
  show ?thesis
    unfolding round_double_quantum q using assms(4) by (simp add: round_half_even_near)
qed

lemma round_double_below:
  assumes "2 powi e \<le> x" "x < 2 powi (e + 1)" "- 1022 \<le> e"
    "x / 2 powi (e - 52) < of_int n + 1 / 2"
  shows "round_double x \<le> of_int n * 2 powi (e - 52)"
proof -
  have "(0 :: rat) < 2 powi e" by simp
  then have x: "0 < x" using assms(1) by linarith
  have "ilog2 \<bar>x\<bar> = e" using assms(1,2) x by (intro ilog2_unique) simp_all
  then have q: "quantum x = e - 52" using assms(3) by (simp add: quantum_def)
  have "round_half_even (x / 2 powi (e - 52)) \<le> n"
    using assms(4) by (rule round_half_even_below)
  then have "(of_int (round_half_even (x / 2 powi (e - 52))) :: rat) \<le> of_int n"
    by (simp only: of_int_le_iff)
  then have "of_int (round_half_even (x / 2 powi (e - 52))) * 2 powi (e - 52)
             \<le> of_int n * (2 :: rat) powi (e - 52)"
    by (intro mult_right_mono) simp_all
  then show ?thesis unfolding round_double_quantum q .
qed

lemma round_double_err: "\<bar>round_double x - x\<bar> \<le> 2 powi (quantum x - 1)"
proof -
  define q where "q = quantum x"
  define y where "y = x / 2 powi q"
  have P: "(0 :: rat) < 2 powi q" by simp
  have x: "x = y * 2 powi q" by (simp add: y_def)
  have "round_double x - x = (of_int (round_half_even y) - y) * 2 powi q"
    by (simp add: round_double_quantum q_def [symmetric] y_def [symmetric] algebra_simps)
       (simp add: y_def)
  then have "\<bar>round_double x - x\<bar> = \<bar>of_int (round_half_even y) - y\<bar> * 2 powi q"
    by (simp add: abs_mult)
  also have "\<dots> \<le> 1 / 2 * 2 powi q"
    using round_half_even_err [of y] by (intro mult_right_mono) simp_all
  also have "\<dots> = 2 powi (q - 1)"
    by (simp add: power_int_diff)
  finally show ?thesis by (simp add: q_def)
qed

lemma round_double_rel:
  "\<bar>round_double x\<bar> \<le> \<bar>x\<bar> * (1 + 2 powi (- 53)) + 2 powi (- 1075)"
proof (cases "x = 0")
  case True
  then show ?thesis by (simp add: round_double_zero)
next
  case False
  then have pos: "0 < \<bar>x\<bar>" by simp
  have e: "\<bar>round_double x - x\<bar> \<le> 2 powi (quantum x - 1)" by (rule round_double_err)
  have "2 powi (quantum x - 1) \<le> \<bar>x\<bar> * 2 powi (- 53) + 2 powi (- 1075)"
  proof (cases "ilog2 \<bar>x\<bar> - 52 \<le> - 1074")
    case True
    then have "quantum x = - 1074" by (simp add: quantum_def)
    then show ?thesis by simp
  next
    case False
    then have q: "quantum x = ilog2 \<bar>x\<bar> - 52" by (simp add: quantum_def)
    have "(2 :: rat) powi (quantum x - 1) = 2 powi (ilog2 \<bar>x\<bar> + (- 53))"
      by (simp add: q)
    also have "\<dots> = 2 powi (ilog2 \<bar>x\<bar>) * 2 powi (- 53)" by (rule powi_split)
    also have "\<dots> \<le> \<bar>x\<bar> * 2 powi (- 53)"
      using ilog2_bounds [OF pos] by (intro mult_right_mono) simp_all
    finally show ?thesis by simp
  qed
  then have "\<bar>round_double x - x\<bar> \<le> \<bar>x\<bar> * 2 powi (- 53) + 2 powi (- 1075)"
    using e by linarith
  moreover have "\<bar>round_double x\<bar> \<le> \<bar>x\<bar> + \<bar>round_double x - x\<bar>" by linarith
  ultimately show ?thesis by (simp add: algebra_simps)
qed

section \<open>The tone synthesizer\<close>

lemma max_double_ge: "k \<le> 1023 \<Longrightarrow> 0 \<le> k \<Longrightarrow> (2 :: rat) powi k \<le> max_double"
proof -
  assume k: "k \<le> 1023" "0 \<le> k"
  then have "(2 :: rat) powi k \<le> 2 powi 1023" by (intro power_int_increasing) simp_all
  also have "\<dots> \<le> max_double" by (simp add: max_double_def)
  finally show ?thesis .
qed

lemma to_float_finite:
  assumes "\<bar>x\<bar> \<le> of_int m * 2 powi k" "m < 2 ^ 53" "- 1074 \<le> k"
    "of_int m * 2 powi k \<le> max_double"
  shows "to_float x = Finite (round_double x) \<and> \<bar>round_double x\<bar> \<le> of_int m * 2 powi k"
proof -
  have "\<bar>round_double x\<bar> \<le> of_int m * 2 powi k"
    using assms(1-3) by (rule round_double_abs_le)
  then show ?thesis using assms(4) by (auto simp add: to_float_def Let_def)
qed

lemma float_mul_finite:
  assumes "\<bar>x\<bar> \<le> p" "\<bar>y\<bar> \<le> q" "p * q \<le> of_int m * 2 powi k" "m < 2 ^ 53" "- 1074 \<le> k"
    "of_int m * 2 powi k \<le> max_double"
  shows "\<exists>z. float_mul (Finite x) (Finite y) = Finite z \<and> \<bar>z\<bar> \<le> of_int m * 2 powi k"
proof -
  have "\<bar>x * y\<bar> \<le> p * q"
    unfolding abs_mult using assms(1,2) by (intro mult_mono) simp_all
  then have "\<bar>x * y\<bar> \<le> of_int m * 2 powi k" using assms(3) by linarith
  then show ?thesis using to_float_finite [OF _ assms(4-6)] by simp
qed

lemma float_of_int_exact:
  assumes "\<bar>n\<bar> < 2 ^ 53"
  shows "float_of_int n = Inr (Finite (of_int n))"
proof -
  have r: "round_double (of_int n) = of_int n"
    using round_double_exact [of n 0] assms by simp
  have "\<bar>of_int n :: rat\<bar> \<le> of_int (2 ^ 53)"
    using assms by (simp only: of_int_abs [symmetric] of_int_le_iff) 
  also have "\<dots> \<le> max_double" by (simp add: max_double_def)
  finally show ?thesis by (simp add: float_of_int_def r)
qed

lemma to_float_zero: "to_float 0 = Finite 0"
  by (simp add: to_float_def round_double_zero max_double_def)

lemma tone_sample_int:
  "tone_sample msin frequency (PyInt sr) (PyFloat a) i =
     (case int_truediv i sr of
        Inl e \<Rightarrow> Inl e
      | Inr t \<Rightarrow>
     (case float_of_int 2 of
        Inl e \<Rightarrow> Inl e
      | Inr two \<Rightarrow>
     (case as_float frequency of
        Inl e \<Rightarrow> Inl e
      | Inr f \<Rightarrow>
     (case math_sin msin (float_mul (float_mul (float_mul two math_pi) f) t) of
        Inl e \<Rightarrow> Inl e
      | Inr s \<Rightarrow>
     (case float_of_int 32767 of
        Inl e \<Rightarrow> Inl e
      | Inr k \<Rightarrow> py_int (float_mul (float_mul a s) k))))))"
  by (simp add: tone_sample_def num_sin_def split: sum.splits)

lemma generate_tone_int:
  "generate_tone msin frequency (PyInt d) (PyInt sr) amplitude =
     (case int_truediv (sr * d) 1000 of
        Inl e \<Rightarrow> Inl e
      | Inr q \<Rightarrow>
     (case py_int q of
        Inl e \<Rightarrow> Inl e
      | Inr n \<Rightarrow>
          for_each (tone_sample msin frequency (PyInt sr) amplitude) (map int [0..<nat n])))"
  by (simp add: generate_tone_def split: sum.splits)

lemma generate_silence_int:
  "generate_silence (PyInt d) (PyInt sr) =
     (case int_truediv (sr * d) 1000 of
        Inl e \<Rightarrow> Inl e
      | Inr q \<Rightarrow>
     (case py_int q of
        Inl e \<Rightarrow> Inl e
      | Inr n \<Rightarrow> Inr (replicate (nat n) 0)))"
  by (simp add: generate_silence_def split: sum.splits)

lemma num_samples_exact:
  assumes "0 \<le> P" "P \<le> 17592186044416998"
  shows "\<exists>r. int_truediv P 1000 = Inr (Finite r) \<and> py_int (Finite r) = Inr (P div 1000)"
proof -
  define k where "k = P div 1000"
  define x :: rat where "x = of_int P / of_int 1000"
  define r where "r = round_double x"
  have k: "0 \<le> k" "k \<le> 2 ^ 44" using assms by (simp_all add: k_def)
  have P: "P = 1000 * k + P mod 1000" by (simp add: k_def)
  have "(of_int P :: rat) = of_int (1000 * k + P mod 1000)" using P by simp
  then have xk: "x = of_int k + of_int (P mod 1000) / 1000"
    by (simp add: x_def field_simps)
  have "0 \<le> P mod 1000" "P mod 1000 \<le> 999" by simp_all
  then have "(0 :: rat) \<le> of_int (P mod 1000)" "(of_int (P mod 1000) :: rat) \<le> 999"
    by simp_all
  then have x: "of_int k \<le> x" "x \<le> of_int k + 999 / 1000"
    unfolding xk by simp_all
  have x0: "0 \<le> x" using x(1) k(1) by (simp add: order_trans [of 0 "of_int k"])
  have lo: "of_int k \<le> r"
  proof (cases "k = 0")
    case True
    then show ?thesis using round_double_nonneg [OF x0] by (simp add: r_def)
  next
    case False
    then have "of_int k * 2 powi 0 \<le> round_double x"
      using k x(1) by (intro round_double_ge) simp_all
    then show ?thesis by (simp add: r_def)
  qed
  have hi: "r \<le> of_int k + 1023 / 1024"
  proof -
    consider "k < 2 ^ 43" | "2 ^ 43 \<le> k" "k < 2 ^ 44" | "k = 2 ^ 44" using k(2) by linarith
    then show ?thesis
    proof cases
      case 1
      show ?thesis
      proof (cases "x = 0")
        case True
        then show ?thesis using k(1) by (simp add: r_def round_double_zero)
      next
        case False
        have g: "of_int (1024 * k + 1023) * (2 :: rat) powi (- 10) = of_int k + 1023 / 1024"
          by (simp add: power_int_minus field_simps)
        have "0 < x" using False x0 by simp
        moreover have "x \<le> of_int (1024 * k + 1023) * 2 powi (- 10)"
          unfolding g using x(2) by simp
        moreover have "1024 * k + 1023 < 2 ^ 53" using 1 by simp
        ultimately have "round_double x \<le> of_int (1024 * k + 1023) * 2 powi (- 10)"
          by (intro round_double_le) simp_all
        then show ?thesis unfolding g by (simp add: r_def)
      qed
    next
      case 2
      have kr: "(2 :: rat) ^ 43 \<le> of_int k" "(of_int k :: rat) + 1 \<le> 2 ^ 44"
      proof -
        have "(of_int (2 ^ 43) :: rat) \<le> of_int k" using 2(1) by (simp only: of_int_le_iff)
        then show "(2 :: rat) ^ 43 \<le> of_int k" by simp
        have "k + 1 \<le> 2 ^ 44" using 2(2) by simp
        then have "(of_int (k + 1) :: rat) \<le> of_int (2 ^ 44)" by (simp only: of_int_le_iff)
        then show "(of_int k :: rat) + 1 \<le> 2 ^ 44" by simp
      qed
      have a: "2 powi 43 \<le> x" using kr(1) x(1) by simp
      have c: "x < 2 powi (43 + 1)" using kr(2) x(2) by simp
      have h: "x / 2 powi (43 - 52) < of_int (512 * k + 511) + 1 / 2"
        using x(2) by (simp add: power_int_minus)
      have "round_double x \<le> of_int (512 * k + 511) * 2 powi (43 - 52)"
        using a c _ h by (rule round_double_below) simp
      then show ?thesis by (simp add: r_def power_int_minus)
    next
      case 3
      then have k44: "k = 17592186044416" by simp
      have Pr: "(of_int P :: rat) \<le> 17592186044416998"
      proof -
        have "(of_int P :: rat) \<le> of_int 17592186044416998"
          using assms(2) by (simp only: of_int_le_iff)
        then show ?thesis by simp
      qed
      have a: "2 powi 44 \<le> x" using x(1) by (simp add: k44)
      have c: "x < 2 powi (44 + 1)" using x(2) by (simp add: k44)
      have h: "x / 2 powi (44 - 52) < of_int 4503599627370751 + 1 / 2"
        using Pr by (simp add: x_def power_int_minus)
      have "round_double x \<le> of_int 4503599627370751 * 2 powi (44 - 52)"
        using a c _ h by (rule round_double_below) simp
      then show ?thesis by (simp add: r_def k44 power_int_minus)
    qed
  qed
  have "r < of_int k + 1" using hi by simp
  then have fl: "\<lfloor>r\<rfloor> = k" using lo by (intro floor_unique) simp_all
  have r0: "0 \<le> r" using lo k(1) by (simp add: order_trans [of 0 "of_int k"])
  have "(of_int k :: rat) \<le> of_int (2 ^ 44)" using k(2) by (simp only: of_int_le_iff)
  then have "r \<le> 2 ^ 45" using hi by simp
  also have "(2 :: rat) ^ 45 \<le> max_double" by (simp add: max_double_def)
  finally have "\<bar>r\<bar> \<le> max_double" using r0 by simp
  then have "int_truediv P 1000 = Inr (Finite r)"
    by (simp add: int_truediv_def r_def x_def)
  moreover have "py_int (Finite r) = Inr k"
    using r0 fl by (simp add: py_int_def)
  ultimately show ?thesis by (simp add: k_def)
qed

lemma for_each_ok:
  assumes "\<forall>i\<in>set xs. \<exists>s. f i = Inr s \<and> Q s"
  shows "\<exists>samples. for_each f xs = Inr samples \<and> length samples = length xs
           \<and> (\<forall>s\<in>set samples. Q s)
           \<and> (\<forall>j<length xs. f (xs ! j) = Inr (samples ! j))"
  using assms
proof (induction xs)
  case Nil
  then show ?case by simp
next
  case (Cons i xs)
  then obtain s where s: "f i = Inr s" "Q s" by auto
  from Cons obtain samples where ss: "for_each f xs = Inr samples" "length samples = length xs"
    "\<forall>s\<in>set samples. Q s" "\<forall>j<length xs. f (xs ! j) = Inr (samples ! j)"
    by auto
  have "\<forall>j<length (i # xs). f ((i # xs) ! j) = Inr ((s # samples) ! j)"
    using s(1) ss(4) by (auto simp add: nth_Cons split: nat.splits)
  then show ?case using s ss by auto
qed

lemma for_each_error:
  assumes "\<forall>i\<in>set pre. \<exists>s. f i = Inr s" "f x = Inl e"
  shows "for_each f (pre @ x # post) = Inl e"
  using assms by (induction pre) (auto split: sum.splits)

lemma as_float_value:
  assumes "num_value frequency = Some F" "\<bar>F\<bar> \<le> 2 ^ 1021"
  shows "\<exists>f. as_float frequency = Inr (Finite f) \<and> \<bar>f\<bar> \<le> 2 ^ 1021
           \<and> \<bar>f\<bar> \<le> \<bar>F\<bar> * (1 + 2 powi (- 53)) + 2 powi (- 1075)"
proof (cases frequency)
  case (PyInt n)
  then have F: "F = of_int n" using assms(1) by simp
  have "\<bar>F\<bar> \<le> of_int 1 * 2 powi 1021" using assms(2) by simp
  then have b: "\<bar>round_double F\<bar> \<le> of_int 1 * 2 powi 1021"
    by (rule round_double_abs_le) simp_all
  moreover have "(2 :: rat) powi 1021 \<le> max_double" by (intro max_double_ge) simp_all
  ultimately have "float_of_int n = Inr (Finite (round_double F))"
    by (simp add: float_of_int_def F)
  then show ?thesis using b round_double_rel [of F] by (simp add: PyInt)
next
  case (PyFloat x)
  then obtain y where x: "x = Finite y" using assms(1) by (cases x) simp_all
  then have F: "F = y" using assms(1) PyFloat by simp
  have "0 \<le> \<bar>F\<bar> * 2 powi (- 53) + 2 powi (- 1075)" by simp
  then have "\<bar>F\<bar> \<le> \<bar>F\<bar> * (1 + 2 powi (- 53)) + 2 powi (- 1075)"
    by (simp add: algebra_simps)
  then show ?thesis using assms(2) by (simp add: PyFloat x F)
qed

lemma two_pi:
  "float_mul (Finite 2) math_pi = Finite (884279719003555 / 140737488355328)"
proof -
  have e: "(884279719003555 / 140737488355328 :: rat) = of_int 884279719003555 * 2 powi (- 47)"
    by (simp add: power_int_minus)
  have "round_double (884279719003555 / 140737488355328) = 884279719003555 / 140737488355328"
    unfolding e by (rule round_double_exact) simp_all
  then show ?thesis by (simp add: math_pi_def to_float_def max_double_def)
qed

lemma phase_bound:
  fixes A :: rat
  assumes "0 \<le> \<epsilon>" "0 \<le> \<eta>" "0 \<le> v1" "0 \<le> A" "1 \<le> \<delta>" "\<delta> \<le> Dm" "A * \<delta> \<le> B"
    "X \<le> v1 * (A * (1 + \<epsilon>) + \<eta>)" "0 \<le> v2" "v2 \<le> X * (1 + \<epsilon>) + \<eta>"
    "0 \<le> tt" "tt \<le> \<delta> * (1 + \<epsilon>) + \<eta>"
  shows "v2 * tt \<le> (v1 * (1 + \<epsilon>) * (1 + \<epsilon>) * B + (v1 * \<eta> * (1 + \<epsilon>) + \<eta>) * Dm) * (1 + \<epsilon> + \<eta>)"
proof -
  have d0: "0 \<le> \<delta>" using assms(5) by simp
  have "\<eta> * 1 \<le> \<eta> * \<delta>" using assms(2,5) by (intro mult_left_mono) simp_all
  then have t: "tt \<le> \<delta> * (1 + \<epsilon> + \<eta>)" using assms(12) by (simp add: algebra_simps)
  have "X * (1 + \<epsilon>) \<le> v1 * (A * (1 + \<epsilon>) + \<eta>) * (1 + \<epsilon>)"
    using assms(1,8) by (intro mult_right_mono) simp_all
  then have v: "v2 \<le> v1 * (A * (1 + \<epsilon>) + \<eta>) * (1 + \<epsilon>) + \<eta>" using assms(10) by linarith
  have "v2 * \<delta> \<le> (v1 * (A * (1 + \<epsilon>) + \<eta>) * (1 + \<epsilon>) + \<eta>) * \<delta>"
    using v d0 by (intro mult_right_mono) simp_all
  also have "\<dots> = v1 * (1 + \<epsilon>) * (1 + \<epsilon>) * (A * \<delta>) + (v1 * \<eta> * (1 + \<epsilon>) + \<eta>) * \<delta>"
    by (simp add: algebra_simps)
  also have "\<dots> \<le> v1 * (1 + \<epsilon>) * (1 + \<epsilon>) * B + (v1 * \<eta> * (1 + \<epsilon>) + \<eta>) * Dm"
    using assms(1,2,3,6,7) by (intro add_mono mult_left_mono) simp_all
  finally have vd: "v2 * \<delta> \<le> v1 * (1 + \<epsilon>) * (1 + \<epsilon>) * B + (v1 * \<eta> * (1 + \<epsilon>) + \<eta>) * Dm" .
  have "v2 * tt \<le> v2 * (\<delta> * (1 + \<epsilon> + \<eta>))"
    using t assms(9) by (intro mult_left_mono) simp_all
  also have "\<dots> = (v2 * \<delta>) * (1 + \<epsilon> + \<eta>)" by simp
  also have "\<dots> \<le> (v1 * (1 + \<epsilon>) * (1 + \<epsilon>) * B + (v1 * \<eta> * (1 + \<epsilon>) + \<eta>) * Dm) * (1 + \<epsilon> + \<eta>)"
    using vd assms(1,2) by (intro mult_right_mono) simp_all
  finally show ?thesis .
qed

lemma phase_const:
  "((884279719003555 / 140737488355328) * (1 + 2 powi (- 53)) * (1 + 2 powi (- 53)) * 2 ^ 1021
      + ((884279719003555 / 140737488355328) * 2 powi (- 1075) * (1 + 2 powi (- 53))
          + 2 powi (- 1075)) * 2 ^ 45) * (1 + 2 powi (- 53) + 2 powi (- 1075))
    \<le> of_int 7 * (2 :: rat) powi 1021"
  by (simp add: power_int_minus)

lemma int_truediv_bounded:
  assumes "sr \<noteq> 0" "\<bar>of_int i / of_int sr\<bar> \<le> (\<delta> :: rat)" "\<delta> \<le> 2 ^ 45"
  shows "\<exists>t. int_truediv i sr = Inr (Finite t) \<and> \<bar>t\<bar> \<le> \<delta> * (1 + 2 powi (- 53)) + 2 powi (- 1075)"
proof -
  define x :: rat where "x = of_int i / of_int sr"
  have "\<bar>x\<bar> \<le> of_int 1 * 2 powi 45" using assms(2,3) by (simp add: x_def)
  then have "\<bar>round_double x\<bar> \<le> of_int 1 * 2 powi 45"
    by (rule round_double_abs_le) simp_all
  moreover have "(2 :: rat) powi 45 \<le> max_double" by (intro max_double_ge) simp_all
  ultimately have "int_truediv i sr = Inr (Finite (round_double x))"
    using assms(1) by (simp add: int_truediv_def x_def)
  moreover have "\<bar>x\<bar> * (1 + 2 powi (- 53)) \<le> \<delta> * (1 + 2 powi (- 53))"
    using assms(2) unfolding x_def by (intro mult_right_mono) simp_all
  then have "\<bar>round_double x\<bar> \<le> \<delta> * (1 + 2 powi (- 53)) + 2 powi (- 1075)"
    using round_double_rel [of x] by linarith
  ultimately show ?thesis by blast
qed

lemma default_amplitude_bound:
  "\<bar>round_double (3 / 10)\<bar> \<le> of_int 314573 * 2 powi (- 20)"
  by (rule round_double_abs_le) simp_all

lemma py_int_bounded:
  assumes "\<bar>y\<bar> \<le> of_int 19661 * 2 powi (- 1)"
  shows "\<exists>s. py_int (Finite y) = Inr s \<and> \<bar>s\<bar> \<le> 9830"
proof -
  have y: "- (19661 / 2) \<le> y" "y \<le> 19661 / 2" using assms by simp_all
  show ?thesis
  proof (cases "0 \<le> y")
    case True
    have "\<lfloor>y\<rfloor> \<le> 9830" using y(2) by (simp add: floor_le_iff)
    moreover have "0 \<le> \<lfloor>y\<rfloor>" using True by simp
    ultimately have "\<bar>\<lfloor>y\<rfloor>\<bar> \<le> 9830" by linarith
    then show ?thesis using True by (simp add: py_int_def)
  next
    case False
    have "- 9830 \<le> \<lceil>y\<rceil>" using y(1) by (simp add: le_ceiling_iff)
    moreover have "\<lceil>y\<rceil> \<le> 0" using False by (simp add: ceiling_le_iff)
    ultimately have "\<bar>\<lceil>y\<rceil>\<bar> \<le> 9830" by linarith
    then show ?thesis using False by (simp add: py_int_def)
  qed
qed

lemma scaled_frequency:
  assumes "\<bar>f\<bar> \<le> 2 ^ 1021"
  shows "\<exists>w. float_mul (Finite (884279719003555 / 140737488355328)) (Finite f) = Finite w
           \<and> \<bar>w\<bar> \<le> \<bar>884279719003555 / 140737488355328 * f\<bar> * (1 + 2 powi (- 53))
                    + 2 powi (- 1075)"
proof -
  define X :: rat where "X = 884279719003555 / 140737488355328 * f"
  have "\<bar>X\<bar> = 884279719003555 / 140737488355328 * \<bar>f\<bar>" by (simp add: X_def abs_mult)
  also have "\<dots> \<le> 884279719003555 / 140737488355328 * 2 ^ 1021"
    using assms by (intro mult_left_mono) simp_all
  also have "\<dots> = of_int 884279719003555 * 2 powi 974" by simp
  finally have "\<bar>X\<bar> \<le> of_int 884279719003555 * 2 powi 974" .
  moreover have "of_int 884279719003555 * 2 powi 974 \<le> max_double"
    by (simp add: max_double_def)
  ultimately have "to_float X = Finite (round_double X)"
    using to_float_finite [of X 884279719003555 974] by simp
  then show ?thesis using round_double_rel [of X] by (simp add: X_def)
qed

lemma sample_of_sine:
  assumes "\<bar>s\<bar> \<le> 1"
  shows "\<exists>n. py_int (float_mul (float_mul default_amplitude (Finite s)) (Finite 32767)) = Inr n
           \<and> \<bar>n\<bar> \<le> 9830"
proof -
  have d: "of_int 314573 * (2 :: rat) powi (- 20) \<le> max_double"
    by (simp add: max_double_def)
  obtain v where v: "float_mul default_amplitude (Finite s) = Finite v"
      "\<bar>v\<bar> \<le> of_int 314573 * 2 powi (- 20)"
    unfolding default_amplitude_def
    using float_mul_finite [of "round_double (3 / 10)" "of_int 314573 * 2 powi (- 20)"
        s 1 314573 "- 20"] default_amplitude_bound assms d
    by auto
  have "of_int 19661 * (2 :: rat) powi (- 1) \<le> max_double"
    by (simp add: max_double_def)
  then obtain y where y: "float_mul (Finite v) (Finite 32767) = Finite y"
      "\<bar>y\<bar> \<le> of_int 19661 * 2 powi (- 1)"
    using float_mul_finite [of v "of_int 314573 * 2 powi (- 20)" 32767 32767 19661 "- 1"] v(2)
    by auto
  show ?thesis using py_int_bounded [OF y(2)] by (simp add: v(1) y(1) del: float_mul.simps)
qed

lemma tone_sample_ok:
  assumes "\<forall>x. \<bar>msin x\<bar> \<le> 1" "sr \<noteq> 0" "num_value frequency = Some F"
    "1 \<le> \<delta>" "\<delta> \<le> 2 ^ 45" "\<bar>of_int i / of_int sr\<bar> \<le> \<delta>" "\<bar>F\<bar> * \<delta> \<le> 2 ^ 1021"
  shows "\<exists>s. tone_sample msin frequency (PyInt sr) (PyFloat default_amplitude) i = Inr s
           \<and> \<bar>s\<bar> \<le> 9830"
proof -
  define c :: rat where "c = 884279719003555 / 140737488355328"
  define \<epsilon> :: rat where "\<epsilon> = 2 powi (- 53)"
  define \<eta> :: rat where "\<eta> = 2 powi (- 1075)"
  have c0: "0 \<le> c" by (simp add: c_def)
  have e0: "0 \<le> \<epsilon>" "0 \<le> \<eta>" by (simp_all add: \<epsilon>_def \<eta>_def)
  obtain t where t: "int_truediv i sr = Inr (Finite t)" "\<bar>t\<bar> \<le> \<delta> * (1 + \<epsilon>) + \<eta>"
    using int_truediv_bounded [OF assms(2,6,5)] unfolding \<epsilon>_def \<eta>_def by blast
  have two: "float_of_int 2 = Inr (Finite 2)"
    using float_of_int_exact [of 2] by simp
  have "\<bar>F\<bar> * 1 \<le> \<bar>F\<bar> * \<delta>" using assms(4) by (intro mult_left_mono) simp_all
  then have F: "\<bar>F\<bar> \<le> 2 ^ 1021" using assms(7) by simp
  obtain f where f: "as_float frequency = Inr (Finite f)" "\<bar>f\<bar> \<le> 2 ^ 1021"
      "\<bar>f\<bar> \<le> \<bar>F\<bar> * (1 + \<epsilon>) + \<eta>"
    using as_float_value [OF assms(3) F] unfolding \<epsilon>_def \<eta>_def by blast
  obtain w where w: "float_mul (Finite c) (Finite f) = Finite w"
      "\<bar>w\<bar> \<le> \<bar>c * f\<bar> * (1 + \<epsilon>) + \<eta>"
    using scaled_frequency [OF f(2)] unfolding c_def \<epsilon>_def \<eta>_def by blast
  have X: "\<bar>c * f\<bar> \<le> c * (\<bar>F\<bar> * (1 + \<epsilon>) + \<eta>)"
    unfolding abs_mult using c0 f(3) by (simp add: mult_left_mono)
  have "\<bar>w\<bar> * \<bar>t\<bar> \<le> (c * (1 + \<epsilon>) * (1 + \<epsilon>) * 2 ^ 1021 + (c * \<eta> * (1 + \<epsilon>) + \<eta>) * 2 ^ 45)
          * (1 + \<epsilon> + \<eta>)"
    using e0 c0 _ assms(4,5,7) X _ w(2) _ t(2) by (rule phase_bound) simp_all
  also have "\<dots> \<le> of_int 7 * 2 powi 1021"
    unfolding c_def \<epsilon>_def \<eta>_def by (rule phase_const)
  finally have "\<bar>w * t\<bar> \<le> of_int 7 * 2 powi 1021" by (simp add: abs_mult)
  moreover have "of_int 7 * 2 powi 1021 \<le> max_double" by (simp add: max_double_def)
  ultimately have ph: "float_mul (Finite w) (Finite t) = Finite (round_double (w * t))"
    using to_float_finite [of "w * t" 7 1021] by simp
  have s: "math_sin msin (Finite (round_double (w * t))) = Inr (Finite (msin (round_double (w * t))))"
    by (simp add: math_sin_def)
  have k: "float_of_int 32767 = Inr (Finite 32767)"
    using float_of_int_exact [of 32767] by simp
  obtain n where "py_int (float_mul (float_mul default_amplitude
        (Finite (msin (round_double (w * t))))) (Finite 32767)) = Inr n" "\<bar>n\<bar> \<le> 9830"
    using sample_of_sine assms(1) by blast
  then show ?thesis
    using two_pi unfolding c_def [symmetric]
    by (simp add: tone_sample_int t(1) two f(1) w(1) ph s k del: float_mul.simps)
qed

lemma tone_sample_first:
  assumes "msin 0 = 0" "sr \<noteq> 0" "num_value frequency = Some F" "\<bar>F\<bar> \<le> 2 ^ 1021"
  shows "tone_sample msin frequency (PyInt sr) (PyFloat default_amplitude) 0 = Inr 0"
proof -
  have t: "int_truediv 0 sr = Inr (Finite 0)"
    using assms(2) by (simp add: int_truediv_def round_double_zero max_double_def)
  have two: "float_of_int 2 = Inr (Finite 2)"
    using float_of_int_exact [of 2] by simp
  obtain f where f: "as_float frequency = Inr (Finite f)" "\<bar>f\<bar> \<le> 2 ^ 1021"
    using as_float_value [OF assms(3,4)] by blast
  obtain w where w: "float_mul (Finite (884279719003555 / 140737488355328)) (Finite f) = Finite w"
    using scaled_frequency [OF f(2)] by blast
  have k: "float_of_int 32767 = Inr (Finite 32767)"
    using float_of_int_exact [of 32767] by simp
  have ph: "float_mul (Finite w) (Finite 0) = Finite 0"
    by (simp add: to_float_zero)
  have s: "math_sin msin (Finite 0) = Inr (Finite 0)"
    by (simp add: math_sin_def assms(1))
  have v: "float_mul default_amplitude (Finite 0) = Finite 0"
    by (simp add: default_amplitude_def to_float_zero)
  have y: "float_mul (Finite 0) (Finite 32767) = Finite 0"
    by (simp add: to_float_zero)
  show ?thesis
    by (simp add: tone_sample_int t two two_pi f(1) w ph s v k y py_int_def del: float_mul.simps)
qed

lemma generate_tone_ok:
  assumes "\<forall>x. \<bar>msin x\<bar> \<le> 1" "0 \<le> sr * d" "sr * d \<le> 17592186044416998"
    "num_value frequency = Some F" "\<bar>F\<bar> * max 1000 \<bar>of_int d\<bar> \<le> 1000 * 2 ^ 1021"
  shows "\<exists>samples. generate_tone msin frequency (PyInt d) (PyInt sr) (PyFloat default_amplitude)
             = Inr samples
           \<and> int (length samples) = sr * d div 1000
           \<and> (\<forall>s\<in>set samples. \<bar>s\<bar> \<le> 9830)
           \<and> (\<forall>j<length samples.
                 tone_sample msin frequency (PyInt sr) (PyFloat default_amplitude) (int j)
                   = Inr (samples ! j))"
proof -
  define N where "N = sr * d div 1000"
  define \<delta> :: rat where "\<delta> = max 1000 \<bar>of_int d\<bar> / 1000"
  have N: "0 \<le> N" using assms(2) by (simp add: N_def)
  obtain r where r: "int_truediv (sr * d) 1000 = Inr (Finite r)"
      "py_int (Finite r) = Inr N"
    using num_samples_exact [OF assms(2,3)] unfolding N_def by blast
  let ?f = "tone_sample msin frequency (PyInt sr) (PyFloat default_amplitude)"
  let ?xs = "map int [0..<nat N]"
  have d1: "1 \<le> \<delta>" by (simp add: \<delta>_def)
  have Fd: "\<bar>F\<bar> * \<delta> \<le> 2 ^ 1021" using assms(5) by (simp add: \<delta>_def)
  have "\<forall>i\<in>set ?xs. \<exists>s. ?f i = Inr s \<and> \<bar>s\<bar> \<le> 9830"
  proof
    fix i assume "i \<in> set ?xs"
    then have i: "0 \<le> i" "i < N" by auto
    then have "0 < N" by simp
    then have nz: "sr \<noteq> 0" "d \<noteq> 0" unfolding N_def by (auto simp add: div_eq_0_iff)
    have P: "sr * d = \<bar>sr\<bar> * \<bar>d\<bar>" using assms(2) by (simp add: abs_mult [symmetric])
    have "1 * \<bar>d\<bar> \<le> \<bar>sr\<bar> * \<bar>d\<bar>" using nz(1) by (intro mult_right_mono) simp_all
    then have "\<bar>d\<bar> \<le> 17592186044416998" using assms(3) P by simp
    then have "(of_int \<bar>d\<bar> :: rat) \<le> of_int 17592186044416998" by (simp only: of_int_le_iff)
    then have d2: "\<delta> \<le> 2 ^ 45" by (simp add: \<delta>_def)
    have "1000 * N \<le> sr * d" unfolding N_def by simp
    then have "1000 * i \<le> \<bar>sr\<bar> * \<bar>d\<bar>" using i(2) P by simp
    then have "(of_int (1000 * i) :: rat) \<le> of_int (\<bar>sr\<bar> * \<bar>d\<bar>)" by (simp only: of_int_le_iff)
    then have "1000 * (of_int i :: rat) \<le> \<bar>of_int sr\<bar> * \<bar>of_int d\<bar>" by simp
    also have "\<dots> \<le> \<bar>of_int sr\<bar> * max 1000 \<bar>of_int d\<bar>"
      by (intro mult_left_mono) simp_all
    finally have "(of_int i :: rat) \<le> \<bar>of_int sr\<bar> * \<delta>" by (simp add: \<delta>_def)
    moreover have "(0 :: rat) < \<bar>of_int sr\<bar>" using nz(1) by simp
    ultimately have "(of_int i :: rat) / \<bar>of_int sr\<bar> \<le> \<delta>"
      by (simp add: pos_divide_le_eq mult.commute)
    then have t: "\<bar>(of_int i :: rat) / of_int sr\<bar> \<le> \<delta>" using i(1) by (simp add: abs_divide)
    show "\<exists>s. ?f i = Inr s \<and> \<bar>s\<bar> \<le> 9830"
      using assms(1) nz(1) assms(4) d1 d2 t Fd by (rule tone_sample_ok)
  qed
  from for_each_ok [OF this] obtain samples where ss: "for_each ?f ?xs = Inr samples"
    "length samples = length ?xs" "\<forall>s\<in>set samples. \<bar>s\<bar> \<le> 9830"
    "\<forall>j<length ?xs. ?f (?xs ! j) = Inr (samples ! j)"
    by blast
  have "generate_tone msin frequency (PyInt d) (PyInt sr) (PyFloat default_amplitude) = Inr samples"
    by (simp add: generate_tone_int r ss(1))
  moreover have "int (length samples) = N" using ss(2) N by simp
  moreover have "\<forall>j<length samples. ?f (int j) = Inr (samples ! j)"
    using ss(2,4) by simp
  ultimately show ?thesis using ss(3) unfolding N_def by blast
qed

lemma generate_silence_ok:
  assumes "0 \<le> sr * d" "sr * d \<le> 17592186044416998"
  shows "generate_silence (PyInt d) (PyInt sr) = Inr (replicate (nat (sr * d div 1000)) 0)"
proof -
  obtain r where r: "int_truediv (sr * d) 1000 = Inr (Finite r)"
      "py_int (Finite r) = Inr (sr * d div 1000)"
    using num_samples_exact [OF assms] by blast
  then show ?thesis by (simp add: generate_silence_int)
qed

lemma test_sin_bounded: "\<bar>test_sin x\<bar> \<le> 1"
  by (simp add: test_sin_def abs_le_iff)

lemma test_sin_zero: "test_sin 0 = 0"
  by (simp add: test_sin_def)

lemma float_of_int_overflow: "float_of_int (2 ^ 1024) = Inl OverflowError"
proof -
  have "round_double (of_int 1 * 2 powi 1024) = of_int 1 * 2 powi 1024"
    by (rule round_double_exact) simp_all
  then have r: "round_double (of_int (2 ^ 1024)) = 2 powi 1024" by simp
  have "max_double < 2 powi 1024" by (simp add: max_double_def)
  then have "max_double < \<bar>round_double (of_int (2 ^ 1024))\<bar>" unfolding r by simp
  then show ?thesis by (simp only: float_of_int_def Let_def if_True)
qed

lemma float_of_int_pow2:
  assumes "\<bar>m\<bar> < 2 ^ 53" "\<bar>of_int m * (2 :: rat) powi int k\<bar> \<le> max_double"
  shows "float_of_int (m * 2 ^ k) = Inr (Finite (of_int m * 2 powi int k))"
proof -
  have "round_double (of_int m * 2 powi int k) = of_int m * 2 powi int k"
    using assms(1) by (intro round_double_exact) simp_all
  moreover have "(of_int (m * 2 ^ k) :: rat) = of_int m * 2 powi int k" by simp
  ultimately show ?thesis using assms(2) by (simp add: float_of_int_def del: of_int_mult)
qed

lemma first_index: "map int [0..<nat (numeral n)] = 0 # map int [1..<numeral n]"
  by (simp add: upt_rec)

lemma num_samples_16: "int_truediv 16000 1000 = Inr (Finite 16)"
proof -
  have "round_double (of_int 16 * 2 powi 0) = of_int 16 * 2 powi 0"
    by (rule round_double_exact) simp_all
  then have "round_double 16 = 16" by simp
  then show ?thesis by (simp add: int_truediv_def max_double_def)
qed

lemma start_time: "int_truediv 0 16000 = Inr (Finite 0)"
  by (simp add: int_truediv_def round_double_zero max_double_def)

lemma tone_first_fails:
  assumes "tone_sample msin frequency (PyInt 16000) amplitude 0 = Inl e"
  shows "generate_tone msin frequency (PyInt 1) (PyInt 16000) amplitude = Inl e"
proof -
  have "for_each (tone_sample msin frequency (PyInt 16000) amplitude) (map int [0..<nat 16])
        = Inl e"
    unfolding first_index by (simp add: assms)
  then show ?thesis by (simp add: generate_tone_int num_samples_16 py_int_def)
qed

lemma nan_sample:
  "py_int (float_mul (float_mul default_amplitude NaN) (Finite 32767))
     = Inl (ValueError ''cannot convert float NaN to integer'')"
  by (simp add: default_amplitude_def py_int_def)

lemma tone_overflow:
  "generate_tone test_sin (PyInt (2 ^ 1024)) (PyInt 1) (PyInt 16000) (PyFloat default_amplitude)
     = Inl OverflowError"
proof (rule tone_first_fails)
  have two: "float_of_int 2 = Inr (Finite 2)"
    using float_of_int_exact [of 2] by simp
  show "tone_sample test_sin (PyInt (2 ^ 1024)) (PyInt 16000) (PyFloat default_amplitude) 0
          = Inl OverflowError"
    by (simp only: tone_sample_int start_time two as_float.simps float_of_int_overflow sum.case)
qed

lemma scaled_overflow:
  "float_mul (Finite (884279719003555 / 140737488355328)) (Finite (of_int 3 * 2 powi 1020))
     = PosInf"
proof -
  have e: "884279719003555 / 140737488355328 * (of_int 3 * 2 powi 1020)
        = of_int 2652839157010665 * (2 :: rat) powi 973"
    by simp
  have "round_double (of_int 2652839157010665 * 2 powi 973) = of_int 2652839157010665 * 2 powi 973"
    by (rule round_double_exact) simp_all
  moreover have "max_double < of_int 2652839157010665 * 2 powi 973"
    by (simp add: max_double_def)
  ultimately show ?thesis
    unfolding float_mul.simps e by (simp only: to_float_def Let_def if_True)
qed

lemma tone_nan:
  "generate_tone test_sin (PyInt (3 * 2 ^ 1020)) (PyInt 1) (PyInt 16000) (PyFloat default_amplitude)
     = Inl (ValueError ''cannot convert float NaN to integer'')"
proof (rule tone_first_fails)
  have two: "float_of_int 2 = Inr (Finite 2)"
    using float_of_int_exact [of 2] by simp
  have k: "float_of_int 32767 = Inr (Finite 32767)"
    using float_of_int_exact [of 32767] by simp
  have "\<bar>of_int 3 * (2 :: rat) powi int 1020\<bar> \<le> max_double"
    by (simp add: max_double_def)
  then have f: "float_of_int (3 * 2 ^ 1020) = Inr (Finite (of_int 3 * 2 powi 1020))"
    using float_of_int_pow2 [of 3 1020] by simp
  have ph: "float_mul PosInf (Finite 0) = NaN" by simp
  have s: "math_sin test_sin NaN = Inr NaN" by (simp add: math_sin_def)
  show "tone_sample test_sin (PyInt (3 * 2 ^ 1020)) (PyInt 16000) (PyFloat default_amplitude) 0
          = Inl (ValueError ''cannot convert float NaN to integer'')"
    by (simp only: tone_sample_int start_time two as_float.simps f two_pi scaled_overflow ph s k
          nan_sample sum.case)
qed

lemma tone_nan_frequency:
  "generate_tone test_sin (PyFloat NaN) (PyInt 1) (PyInt 16000) (PyFloat default_amplitude)
     = Inl (ValueError ''cannot convert float NaN to integer'')"
proof (rule tone_first_fails)
  have two: "float_of_int 2 = Inr (Finite 2)"
    using float_of_int_exact [of 2] by simp
  have k: "float_of_int 32767 = Inr (Finite 32767)"
    using float_of_int_exact [of 32767] by simp
  have w: "float_mul (Finite (884279719003555 / 140737488355328)) NaN = NaN" by simp
  have ph: "float_mul NaN (Finite 0) = NaN" by simp
  have s: "math_sin test_sin NaN = Inr NaN" by (simp add: math_sin_def)
  show "tone_sample test_sin (PyFloat NaN) (PyInt 16000) (PyFloat default_amplitude) 0
          = Inl (ValueError ''cannot convert float NaN to integer'')"
    by (simp only: tone_sample_int start_time two as_float.simps two_pi w ph s k
          nan_sample sum.case)
qed

lemma tone_long:
  "generate_tone test_sin (PyInt (2 ^ 1021)) (PyInt 2000) (PyInt 2) (PyFloat default_amplitude)
     = Inl (ValueError ''math domain error'')"
proof -
  let ?f = "tone_sample test_sin (PyInt (2 ^ 1021)) (PyInt 2) (PyFloat default_amplitude)"
  have n: "int_truediv 4000 1000 = Inr (Finite 4)"
  proof -
    have "round_double (of_int 4 * 2 powi 0) = of_int 4 * 2 powi 0"
      by (rule round_double_exact) simp_all
    then have "round_double 4 = 4" by simp
    then show ?thesis by (simp add: int_truediv_def max_double_def)
  qed
  have ok: "\<exists>s. ?f i = Inr s" if "i \<in> set [0, 1, 2]" for i
  proof -
    have "\<bar>(of_int i :: rat) / of_int 2\<bar> \<le> 1" using that by auto
    then have "\<exists>s. ?f i = Inr s \<and> \<bar>s\<bar> \<le> 9830"
      using tone_sample_ok [of test_sin 2 "PyInt (2 ^ 1021)" "2 ^ 1021" 1 i] test_sin_bounded
      by simp
    then show ?thesis by blast
  qed
  have two: "float_of_int 2 = Inr (Finite 2)"
    using float_of_int_exact [of 2] by simp
  have t: "int_truediv 3 2 = Inr (Finite (3 / 2))"
  proof -
    have "round_double (of_int 3 * 2 powi (- 1)) = of_int 3 * 2 powi (- 1)"
      by (rule round_double_exact) simp_all
    then have "round_double (3 / 2) = 3 / 2" by (simp add: power_int_minus)
    then show ?thesis by (simp add: int_truediv_def max_double_def)
  qed
  have "\<bar>of_int 1 * (2 :: rat) powi int 1021\<bar> \<le> max_double"
    by (simp add: max_double_def)
  then have f: "float_of_int (2 ^ 1021) = Inr (Finite (2 powi 1021))"
    using float_of_int_pow2 [of 1 1021] by simp
  have w: "float_mul (Finite (884279719003555 / 140737488355328)) (Finite (2 powi 1021))
        = Finite (of_int 884279719003555 * 2 powi 974)"
  proof -
    have e: "884279719003555 / 140737488355328 * 2 powi 1021
        = of_int 884279719003555 * (2 :: rat) powi 974"
      by simp
    have "round_double (of_int 884279719003555 * 2 powi 974)
        = of_int 884279719003555 * 2 powi 974"
      by (rule round_double_exact) simp_all
    moreover have "of_int 884279719003555 * 2 powi 974 \<le> max_double"
      "- max_double \<le> of_int 884279719003555 * 2 powi 974"
      by (simp_all add: max_double_def)
    ultimately show ?thesis
      unfolding float_mul.simps e by (simp add: to_float_def Let_def)
  qed
  have ph: "float_mul (Finite (of_int 884279719003555 * 2 powi 974)) (Finite (3 / 2)) = PosInf"
  proof -
    have e: "of_int 884279719003555 * 2 powi 974 * (3 / 2)
        = of_int 2652839157010665 * (2 :: rat) powi 973"
      by simp
    have "round_double (of_int 2652839157010665 * 2 powi 973)
        = of_int 2652839157010665 * 2 powi 973"
      by (rule round_double_exact) simp_all
    moreover have "max_double < of_int 2652839157010665 * 2 powi 973"
      by (simp add: max_double_def)
    ultimately show ?thesis
      unfolding float_mul.simps e by (simp only: to_float_def Let_def if_True)
  qed
  have s: "math_sin test_sin PosInf = Inl (ValueError ''math domain error'')"
    by (simp add: math_sin_def)
  have bad: "?f 3 = Inl (ValueError ''math domain error'')"
    by (simp only: tone_sample_int t two as_float.simps f two_pi w ph s sum.case)
  have "map int [0..<nat 4] = [0, 1, 2] @ 3 # []" by (simp add: upt_rec)
  moreover have "for_each ?f ([0, 1, 2] @ 3 # []) = Inl (ValueError ''math domain error'')"
    using ok bad by (intro for_each_error) blast+
  ultimately show ?thesis by (simp add: generate_tone_int n py_int_def)
qed

lemma silence_negative: "generate_silence (PyInt (- 1)) (PyInt 16000) = Inr []"
proof -
  have "round_double (of_int (- 16) * 2 powi 0) = of_int (- 16) * 2 powi 0"
    by (rule round_double_exact) simp_all
  then have r: "round_double (- 16) = - 16" by simp
  have "int_truediv (16000 * - 1) 1000 = Inr (Finite (- 16))"
    by (simp add: int_truediv_def r max_double_def)
  then show ?thesis by (simp add: generate_silence_int py_int_def)
qed

lemma silence_rounded_up:
  "generate_silence (PyInt 1) (PyInt 17592186044416999) = Inr (replicate (nat 17592186044417) 0)"
proof -
  define x :: rat where "x = 17592186044416999 / 1000"
  have "round_double x = of_int 4503599627370752 * 2 powi (44 - 52)"
    by (rule round_double_near) (simp_all add: x_def power_int_minus)
  then have r: "round_double x = 17592186044417" by (simp add: power_int_minus)
  have "int_truediv (17592186044416999 * 1) 1000 = Inr (Finite 17592186044417)"
    using r by (simp add: int_truediv_def x_def max_double_def)
  moreover have "py_int (Finite 17592186044417) = Inr 17592186044417"
    by (simp add: py_int_def)
  ultimately show ?thesis by (simp only: generate_silence_int sum.case)
qed

lemma double_seven_tenths: "round_double (7 / 10) = 3152519739159347 / 4503599627370496"
proof -
  have "round_double (7 / 10) = of_int 6305039478318694 * 2 powi (- 1 - 52)"
    by (rule round_double_near) (simp_all add: power_int_minus)
  then show ?thesis by (simp add: power_int_minus)
qed

lemma silence_float_duration:
  "generate_silence (PyFloat (Finite (round_double (7 / 10)))) (PyInt 10000)
     = Inr (replicate 7 0)"
proof -
  define x :: rat where "x = 10000 * (3152519739159347 / 4503599627370496)"
  have ten: "float_of_int 10000 = Inr (Finite 10000)"
    using float_of_int_exact [of 10000] by simp
  have k: "float_of_int 1000 = Inr (Finite 1000)"
    using float_of_int_exact [of 1000] by simp
  have "round_double x = of_int 7696581394432000 * 2 powi (12 - 52)"
    by (rule round_double_near) (simp_all add: x_def power_int_minus)
  then have "round_double x = 7000" by (simp add: power_int_minus)
  then have p: "float_mul (Finite 10000) (Finite (3152519739159347 / 4503599627370496))
        = Finite 7000"
    by (simp add: to_float_def x_def max_double_def)
  have "round_double (of_int 7 * 2 powi 0) = of_int 7 * 2 powi 0"
    by (rule round_double_exact) simp_all
  then have "round_double 7 = 7" by simp
  then have q: "float_truediv (Finite 7000) (Finite 1000) = Inr (Finite 7)"
    by (simp add: float_truediv_def to_float_def max_double_def)
  have n: "py_int (Finite 7) = Inr 7" by (simp add: py_int_def)
  show ?thesis
    unfolding double_seven_tenths
    by (simp add: generate_silence_def ten k p q n del: float_mul.simps)
qed

text \<open>
  C3 (amended). For all integers \<open>duration_ms\<close> and \<open>sample_rate\<close> with
  \<open>0 \<le> sample_rate * duration_ms \<le> 17592186044416998\<close> (that is \<open>1000 * 2 ^ 44 + 998\<close>)
  and every frequency, an integer or a finite float, with
  \<open>\<bar>frequency\<bar> * max 1000 \<bar>duration_ms\<bar> \<le> 1000 * 2 ^ 1021\<close>, with the default amplitude
  0.3 and a sine whose values lie in \<open>[-1, 1]\<close>, \<^verbatim>\<open>generate_tone\<close> returns a list of
  exactly \<open>floor (sample_rate * duration_ms / 1000)\<close> samples, each in
  \<open>[-32768, 32767]\<close>, and \<^verbatim>\<open>generate_silence\<close> returns a list of exactly that many
  zeros.
\<close>

theorem generate_tone_length_range:
  assumes "\<forall>x. \<bar>msin x\<bar> \<le> 1" "0 \<le> sample_rate * duration_ms"
    "sample_rate * duration_ms \<le> 17592186044416998"
    "num_value frequency = Some F" "\<bar>F\<bar> * max 1000 \<bar>of_int duration_ms\<bar> \<le> 1000 * 2 ^ 1021"
  shows "(\<exists>samples. generate_tone msin frequency (PyInt duration_ms) (PyInt sample_rate)
                (PyFloat default_amplitude) = Inr samples
            \<and> int (length samples) = \<lfloor>(of_int (sample_rate * duration_ms) :: rat) / 1000\<rfloor>
            \<and> (\<forall>s\<in>set samples. - 32768 \<le> s \<and> s \<le> 32767))
         \<and> generate_silence (PyInt duration_ms) (PyInt sample_rate)
             = Inr (replicate (nat \<lfloor>(of_int (sample_rate * duration_ms) :: rat) / 1000\<rfloor>) 0)"
proof -
  have fl: "\<lfloor>(of_int (sample_rate * duration_ms) :: rat) / 1000\<rfloor>
            = sample_rate * duration_ms div 1000"
    using floor_divide_of_int_eq [of "sample_rate * duration_ms" 1000, where ?'a = rat] by simp
  obtain samples where ss:
    "generate_tone msin frequency (PyInt duration_ms) (PyInt sample_rate)
       (PyFloat default_amplitude) = Inr samples"
    "int (length samples) = sample_rate * duration_ms div 1000"
    "\<forall>s\<in>set samples. \<bar>s\<bar> \<le> 9830"
    using generate_tone_ok [OF assms] by blast
  have "\<forall>s\<in>set samples. - 32768 \<le> s \<and> s \<le> 32767"
    using ss(3) by fastforce
  then show ?thesis
    unfolding fl using ss(1,2) generate_silence_ok [OF assms(2,3)] by blast
qed

theorem generate_tone_length_range_witness:
  "(\<exists>samples. generate_tone test_sin (PyFloat (Finite (881 / 2))) (PyInt 200) (PyInt 16000)
                (PyFloat default_amplitude) = Inr samples
            \<and> int (length samples) = \<lfloor>(of_int (16000 * 200) :: rat) / 1000\<rfloor>
            \<and> (\<forall>s\<in>set samples. - 32768 \<le> s \<and> s \<le> 32767))
         \<and> generate_silence (PyInt 200) (PyInt 16000)
             = Inr (replicate (nat \<lfloor>(of_int (16000 * 200) :: rat) / 1000\<rfloor>) 0)"
  using generate_tone_length_range [of test_sin 16000 200 "PyFloat (Finite (881 / 2))" "881 / 2"]
    test_sin_bounded
  by simp

theorem generate_tone_length_range_counterexample:
  "generate_silence (PyInt (- 1)) (PyInt 16000) = Inr []
   \<and> \<lfloor>(of_int (16000 * - 1) :: rat) / 1000\<rfloor> = - 16
   \<and> generate_silence (PyInt 1) (PyInt 17592186044416999)
       = Inr (replicate (nat 17592186044417) 0)
   \<and> \<lfloor>(of_int (17592186044416999 * 1) :: rat) / 1000\<rfloor> = 17592186044416
   \<and> generate_silence (PyFloat (Finite (round_double (7 / 10)))) (PyInt 10000)
       = Inr (replicate 7 0)
   \<and> \<lfloor>10000 * round_double (7 / 10) / 1000\<rfloor> = 6
   \<and> generate_tone test_sin (PyInt (2 ^ 1024)) (PyInt 1) (PyInt 16000)
        (PyFloat default_amplitude) = Inl OverflowError
   \<and> generate_tone test_sin (PyInt (3 * 2 ^ 1020)) (PyInt 1) (PyInt 16000)
        (PyFloat default_amplitude) = Inl (ValueError ''cannot convert float NaN to integer'')
   \<and> generate_tone test_sin (PyInt (2 ^ 1021)) (PyInt 2000) (PyInt 2)
        (PyFloat default_amplitude) = Inl (ValueError ''math domain error'')
   \<and> generate_tone test_sin (PyFloat NaN) (PyInt 1) (PyInt 16000)
        (PyFloat default_amplitude) = Inl (ValueError ''cannot convert float NaN to integer'')"
proof (intro conjI)
  show "\<lfloor>(of_int (16000 * - 1) :: rat) / 1000\<rfloor> = - 16" by simp
  have "\<lfloor>(of_int 17592186044416999 :: rat) / of_int 1000\<rfloor> = 17592186044416999 div 1000"
    by (rule floor_divide_of_int_eq)
  then show "\<lfloor>(of_int (17592186044416999 * 1) :: rat) / 1000\<rfloor> = 17592186044416" by simp
  show "\<lfloor>10000 * round_double (7 / 10) / 1000\<rfloor> = 6"
    unfolding double_seven_tenths by (rule floor_unique) simp_all
qed (rule silence_negative silence_rounded_up silence_float_duration tone_overflow tone_nan
      tone_long tone_nan_frequency)+

text \<open>
  C9. \<^verbatim>\<open>generate_tone(1000, 150, 16000, 0.3)\<close> returns exactly 2400 samples, its
  first sample is 0, and no sample's absolute value exceeds 9830, for every sine
  that is 0 at 0 and whose values lie in \<open>[-1, 1]\<close>.
\<close>

theorem generate_tone_scenario:
  assumes "\<forall>x. \<bar>msin x\<bar> \<le> 1" "msin 0 = 0"
  shows "\<exists>samples. generate_tone msin (PyInt 1000) (PyInt 150) (PyInt 16000)
               (PyFloat default_amplitude) = Inr samples
           \<and> length samples = 2400 \<and> samples ! 0 = 0
           \<and> (\<forall>s\<in>set samples. \<bar>s\<bar> \<le> 9830)"
proof -
  let ?f = "tone_sample msin (PyInt 1000) (PyInt 16000) (PyFloat default_amplitude)"
  obtain samples where ss:
    "generate_tone msin (PyInt 1000) (PyInt 150) (PyInt 16000) (PyFloat default_amplitude)
       = Inr samples"
    "int (length samples) = 16000 * 150 div 1000"
    "\<forall>s\<in>set samples. \<bar>s\<bar> \<le> 9830"
    "\<forall>j<length samples. ?f (int j) = Inr (samples ! j)"
    using generate_tone_ok [of msin 16000 150 "PyInt 1000" 1000] assms(1) by auto
  have len: "length samples = 2400" using ss(2) by simp
  have "?f (int 0) = Inr (samples ! 0)"
    using ss(4) [rule_format, of 0] len by simp
  moreover have "?f 0 = Inr 0"
    using assms(2) by (intro tone_sample_first [where F = 1000]) simp_all
  ultimately have "samples ! 0 = 0" by simp
  then show ?thesis using ss(1,3) len by blast
qed

theorem generate_tone_scenario_witness:
  "\<exists>samples. generate_tone test_sin (PyInt 1000) (PyInt 150) (PyInt 16000)
               (PyFloat default_amplitude) = Inr samples
           \<and> length samples = 2400 \<and> samples ! 0 = 0
           \<and> (\<forall>s\<in>set samples. \<bar>s\<bar> \<le> 9830)"
  using generate_tone_scenario [of test_sin] test_sin_bounded test_sin_zero by simp

end
